theory Spec2Isabelle
  imports Complex_Main "HOL-Library.Word"
begin

section \<open>Data model of \<open>aes.py\<close>\<close>

text \<open>
  The program reads a file of raw bytes, cuts it into blocks of \<open>block_size\<close> bytes,
  counts how often each distinct block occurs, gives every distinct block a colour
  according to its frequency rank and paints one run of pixels per block.
  Python integers are unbounded: they are \<open>int\<close> here. Bytes are \<open>8 word\<close>, a block
  is a list of bytes, a colour is an RGB triple of integers.
\<close>

type_synonym byte = "8 word"
type_synonym block = "byte list"
type_synonym color = "int \<times> int \<times> int"

text \<open>The exceptions the arithmetic and the file access of the program can raise.\<close>

datatype py_error = ZeroDivisionError | ValueError | FileNotFoundError

text \<open>The fields that \<open>ECBImageProcessor.__init__\<close> stores.\<close>

record config =
  image_path :: string
  block_size :: int
  max_colors :: int
  flip :: bool
  pixels_per_block :: int

text \<open>
  \<open>__init__\<close> stores its five arguments and checks nothing; it cannot raise.
\<close>

definition ECBImageProcessor :: "string \<Rightarrow> int \<Rightarrow> int \<Rightarrow> bool \<Rightarrow> int \<Rightarrow> config" where
  "ECBImageProcessor path bs mc fl ppb =
     \<lparr>image_path = path, block_size = bs, max_colors = mc, flip = fl, pixels_per_block = ppb\<rparr>"

text \<open>The output raster: its size and the points that were drawn on it.
  \<open>Image.new('RGB', size)\<close> starts all black; a point never drawn reads as black.\<close>

record image =
  img_width :: int
  img_height :: int
  img_pixels :: "(int \<times> int) \<rightharpoonup> color"

definition getpixel :: "image \<Rightarrow> int \<times> int \<Rightarrow> color" where
  "getpixel img p = (case img_pixels img p of None \<Rightarrow> (0, 0, 0) | Some c \<Rightarrow> c)"

text \<open>What the run does to the outside world, in order: opening and reading the input
  file (attempted first in every run), saving the image, printing the confirmation.\<close>

datatype event = FileRead string | ImageSaved string image | Printed string

section \<open>Python primitives\<close>

definition bind_err :: "py_error + 'a \<Rightarrow> ('a \<Rightarrow> py_error + 'b) \<Rightarrow> py_error + 'b" where
  "bind_err r f = (case r of Inl e \<Rightarrow> Inl e | Inr v \<Rightarrow> f v)"

text \<open>\<open>a % b\<close> and \<open>a // b\<close>: floor semantics, as \<open>mod\<close> and \<open>div\<close> on \<open>int\<close>, but a
  zero divisor raises.\<close>

definition py_mod :: "int \<Rightarrow> int \<Rightarrow> py_error + int" where
  "py_mod a b = (if b = 0 then Inl ZeroDivisionError else Inr (a mod b))"

definition py_floordiv :: "int \<Rightarrow> int \<Rightarrow> py_error + int" where
  "py_floordiv a b = (if b = 0 then Inl ZeroDivisionError else Inr (a div b))"

text \<open>\<open>xs[a:b]\<close>: a negative bound counts from the end, every bound is clipped to the
  list, and nothing is raised.\<close>

definition slice_bound :: "'a list \<Rightarrow> int \<Rightarrow> nat" where
  "slice_bound xs i =
     (if i < 0 then nat (max 0 (int (length xs) + i)) else nat (min i (int (length xs))))"

definition py_slice :: "'a list \<Rightarrow> int \<Rightarrow> int \<Rightarrow> 'a list" where
  "py_slice xs a b = drop (slice_bound xs a) (take (slice_bound xs b) xs)"

text \<open>\<open>range(start, stop, step)\<close>: upwards for a positive step, downwards for a
  negative one, \<open>ValueError\<close> for step 0.\<close>

function range_up :: "int \<Rightarrow> int \<Rightarrow> int \<Rightarrow> int list" where
  "range_up i stop step =
     (if 0 < step \<and> i < stop then i # range_up (i + step) stop step else [])"
  by pat_completeness auto
termination
  by (relation "measure (\<lambda>(i, stop, step). nat (stop - i))") auto

function range_down :: "int \<Rightarrow> int \<Rightarrow> int \<Rightarrow> int list" where
  "range_down i stop step =
     (if step < 0 \<and> stop < i then i # range_down (i + step) stop step else [])"
  by pat_completeness auto
termination
  by (relation "measure (\<lambda>(i, stop, step). nat (i - stop))") auto

declare range_up.simps [simp del] range_down.simps [simp del]

definition py_range :: "int \<Rightarrow> int \<Rightarrow> int \<Rightarrow> py_error + int list" where
  "py_range start stop step =
     (if step = 0 then Inl ValueError
      else if 0 < step then Inr (range_up start stop step)
      else Inr (range_down start stop step))"

text \<open>\<open>int(math.sqrt(n))\<close> for a length \<open>n\<close>: the square root in double precision,
  truncated. For \<open>n < 2^52\<close> the double is the correctly rounded root of an exactly
  represented integer and its truncation is the integer square root, which is what
  \<open>isqrt\<close> computes.\<close>

fun isqrt :: "nat \<Rightarrow> nat" where
  "isqrt 0 = 0"
| "isqrt (Suc n) = (let r = isqrt n in if (r + 1) * (r + 1) \<le> Suc n then r + 1 else r)"

text \<open>\<open>d.get(k, default)\<close> on a dict.\<close>

definition dict_get :: "('k \<rightharpoonup> 'v) \<Rightarrow> 'k \<Rightarrow> 'v \<Rightarrow> 'v" where
  "dict_get d k dflt = (case d k of None \<Rightarrow> dflt | Some v \<Rightarrow> v)"

text \<open>\<open>Counter(iterable)\<close>: a dict that keeps its keys in insertion order. Counting an
  element that is already a key changes its count in place; a new element is appended
  with count 1. \<open>items()\<close> lists the pairs in that order, so the dict is an association
  list here.\<close>

fun counter_add :: "'a \<Rightarrow> ('a \<times> int) list \<Rightarrow> ('a \<times> int) list" where
  "counter_add x [] = [(x, 1)]"
| "counter_add x ((k, c) # kcs) =
     (if k = x then (k, c + 1) # kcs else (k, c) # counter_add x kcs)"

definition Counter :: "'a list \<Rightarrow> ('a \<times> int) list" where
  "Counter xs = foldl (\<lambda>m x. counter_add x m) [] xs"

text \<open>\<open>sorted(xs, key=f, reverse=True)\<close>: CPython reverses the list, sorts it stably
  in ascending key order and reverses the result, so that elements with equal keys keep
  their original order. \<open>sort_key\<close> is a stable sort.\<close>

definition sorted_reverse :: "('a \<Rightarrow> int) \<Rightarrow> 'a list \<Rightarrow> 'a list" where
  "sorted_reverse f xs = rev (sort_key f (rev xs))"

section \<open>The stages of \<open>ECBImageProcessor\<close>\<close>

text \<open>\<open>read_image_bytes\<close>: the file is opened and read whole, then cut down to a
  multiple of \<open>block_size\<close>. The file system is a map from paths to contents.\<close>

definition truncate_bytes :: "config \<Rightarrow> byte list \<Rightarrow> py_error + byte list" where
  "truncate_bytes cfg img_data =
     bind_err (py_mod (int (length img_data)) (block_size cfg))
       (\<lambda>r. Inr (py_slice img_data 0 (int (length img_data) - r)))"

definition read_image_bytes :: "config \<Rightarrow> (string \<rightharpoonup> byte list) \<Rightarrow> py_error + byte list" where
  "read_image_bytes cfg fs =
     (case fs (image_path cfg) of
        None \<Rightarrow> Inl FileNotFoundError
      | Some img_data \<Rightarrow> truncate_bytes cfg img_data)"

definition break_into_blocks :: "config \<Rightarrow> byte list \<Rightarrow> py_error + block list" where
  "break_into_blocks cfg img_data =
     bind_err (py_range 0 (int (length img_data)) (block_size cfg))
       (\<lambda>starts. Inr (map (\<lambda>i. py_slice img_data i (i + block_size cfg)) starts))"

definition count_block_frequencies :: "'a list \<Rightarrow> ('a \<times> int) list" where
  "count_block_frequencies img_blocks = Counter img_blocks"

text \<open>\<open>generate_color_palette\<close>: white, then the colour that the loop computes for each
  index of \<open>range(1, max_colors - 1)\<close>, then black. \<open>i * 50 % 255\<close> is \<open>(i * 50) % 255\<close>.\<close>

definition palette_color :: "int \<Rightarrow> color" where
  "palette_color i = (i * 50 mod 255, i * 80 mod 255, i * 110 mod 255)"

definition generate_color_palette :: "config \<Rightarrow> color list" where
  "generate_color_palette cfg =
     foldl (\<lambda>color_palette i. color_palette @ [palette_color i])
       [(255, 255, 255)] [1 .. max_colors cfg - 2]
     @ [(0, 0, 0)]"

text \<open>The \<open>enumerate\<close> loop of \<open>assign_colors_to_blocks\<close>; \<open>i\<close> is the running index.\<close>

fun assign_loop :: "color list \<Rightarrow> nat \<Rightarrow> ('a \<times> int) list \<Rightarrow> ('a \<rightharpoonup> color) \<Rightarrow> ('a \<rightharpoonup> color)" where
  "assign_loop color_palette i [] block_color_map = block_color_map"
| "assign_loop color_palette i ((blk, c) # rest) block_color_map =
     assign_loop color_palette (Suc i) rest
       (if int i < int (length color_palette) - 1
        then block_color_map(blk \<mapsto> color_palette ! i)
        else block_color_map(blk \<mapsto> (0, 0, 0)))"

text \<open>The first line of \<open>assign_colors_to_blocks\<close>: the items of the frequency
  table, most frequent first.\<close>

definition sorted_blocks :: "('a \<times> int) list \<Rightarrow> ('a \<times> int) list" where
  "sorted_blocks block_frequencies = sorted_reverse snd block_frequencies"

definition assign_colors_to_blocks :: "('a \<times> int) list \<Rightarrow> color list \<Rightarrow> ('a \<rightharpoonup> color)" where
  "assign_colors_to_blocks block_frequencies color_palette =
     assign_loop color_palette 0 (sorted_blocks block_frequencies) Map.empty"

text \<open>\<open>map_blocks_to_colors\<close>: the quotient \<open>block_size // pixels_per_block\<close> is
  evaluated once per block, inside the loop, so a zero divisor raises only when there
  is a block. \<open>range(n)\<close> is empty for \<open>n \<le> 0\<close>.\<close>

fun expand_loop :: "config \<Rightarrow> 'a list \<Rightarrow> ('a \<rightharpoonup> color) \<Rightarrow> color list \<Rightarrow> py_error + color list" where
  "expand_loop cfg [] block_color_map pixel_colors = Inr pixel_colors"
| "expand_loop cfg (blk # rest) block_color_map pixel_colors =
     bind_err (py_floordiv (block_size cfg) (pixels_per_block cfg))
       (\<lambda>n. expand_loop cfg rest block_color_map
          (pixel_colors @
           replicate (nat n) (dict_get block_color_map blk (0, 0, 0))))"

definition map_blocks_to_colors :: "config \<Rightarrow> 'a list \<Rightarrow> ('a \<rightharpoonup> color) \<Rightarrow> py_error + color list" where
  "map_blocks_to_colors cfg img_blocks block_color_map =
     expand_loop cfg img_blocks block_color_map []"

text \<open>\<open>create_image\<close>: \<open>render\<close> is its computation of the raster (the size, then the
  \<open>enumerate\<close> loop that draws the points), which raises when the width is 0;
  \<open>create_image\<close> adds the saving of the file and the printed confirmation, which come
  last. \<open>ImageDraw.point\<close> ignores a point outside the raster.\<close>

definition draw_point :: "int \<Rightarrow> int \<Rightarrow> ((int \<times> int) \<rightharpoonup> color) \<Rightarrow> int \<times> int \<Rightarrow> color
    \<Rightarrow> ((int \<times> int) \<rightharpoonup> color)" where
  "draw_point w h px p c =
     (if 0 \<le> fst p \<and> fst p < w \<and> 0 \<le> snd p \<and> snd p < h then px(p \<mapsto> c) else px)"

definition pixel_position :: "config \<Rightarrow> int \<Rightarrow> int \<Rightarrow> nat \<Rightarrow> int \<times> int" where
  "pixel_position cfg w h idx =
     (let x_coord = int idx mod w;
          y_coord = int idx div w;
          y_coord = (if flip cfg then h - y_coord - 1 else y_coord)
      in (x_coord, y_coord))"

fun draw_loop :: "config \<Rightarrow> int \<Rightarrow> int \<Rightarrow> nat \<Rightarrow> color list \<Rightarrow> ((int \<times> int) \<rightharpoonup> color)
    \<Rightarrow> ((int \<times> int) \<rightharpoonup> color)" where
  "draw_loop cfg w h idx [] px = px"
| "draw_loop cfg w h idx (c # rest) px =
     draw_loop cfg w h (Suc idx) rest
       (if snd (pixel_position cfg w h idx) < h
        then draw_point w h px (pixel_position cfg w h idx) c
        else px)"

definition render :: "config \<Rightarrow> color list \<Rightarrow> py_error + image" where
  "render cfg pixel_colors =
     (let total_pixels = int (length pixel_colors);
          w = int (isqrt (length pixel_colors))
      in bind_err (py_floordiv total_pixels w) (\<lambda>h0.
         bind_err (py_mod total_pixels w) (\<lambda>r.
           let h = (if r \<noteq> 0 then h0 + 1 else h0)
           in Inr \<lparr>img_width = w, img_height = h,
                   img_pixels = draw_loop cfg w h 0 pixel_colors Map.empty\<rparr>)))"

definition create_image :: "config \<Rightarrow> color list \<Rightarrow> event list \<times> (py_error + image)" where
  "create_image cfg pixel_colors =
     (case render cfg pixel_colors of
        Inl e \<Rightarrow> ([], Inl e)
      | Inr img \<Rightarrow>
          ([ImageSaved (image_path cfg @ ''_image.png'') img,
            Printed (''Image saved to '' @ image_path cfg @ ''_image.png'')],
           Inr img))"

text \<open>\<open>process_image\<close>: \<open>pixel_stage\<close> is its first six calls, up to the pixel
  sequence; the result of the run is the trace of its events and the image or the
  exception.\<close>

definition pixel_stage :: "config \<Rightarrow> (string \<rightharpoonup> byte list) \<Rightarrow> py_error + color list" where
  "pixel_stage cfg fs =
     bind_err (read_image_bytes cfg fs) (\<lambda>img_data.
     bind_err (break_into_blocks cfg img_data) (\<lambda>img_blocks.
       let block_frequencies = count_block_frequencies img_blocks;
           color_palette = generate_color_palette cfg;
           block_color_map = assign_colors_to_blocks block_frequencies color_palette
       in map_blocks_to_colors cfg img_blocks block_color_map))"

definition process_image :: "config \<Rightarrow> (string \<rightharpoonup> byte list) \<Rightarrow> event list \<times> (py_error + image)" where
  "process_image cfg fs =
     (case pixel_stage cfg fs of
        Inl e \<Rightarrow> ([FileRead (image_path cfg)], Inl e)
      | Inr pixel_colors \<Rightarrow>
          (FileRead (image_path cfg) # fst (create_image cfg pixel_colors),
           snd (create_image cfg pixel_colors)))"

section \<open>Notions used to state the properties\<close>

text \<open>The position at which a value is first seen in a list (the length of the list
  when it does not occur).\<close>

definition first_index :: "'a list \<Rightarrow> 'a \<Rightarrow> nat" where
  "first_index xs x = length (takeWhile (\<lambda>y. y \<noteq> x) xs)"

text \<open>The ranking of the distinct blocks of a block sequence, as
  \<open>assign_colors_to_blocks\<close> computes it from the frequency table, and the colour that a
  run gives to the distinct block of rank \<open>i\<close> (ranks count from 0; \<open>rank_color\<close> is
  used for ranks below the length of the ranking only).\<close>

definition ranking :: "'a list \<Rightarrow> ('a \<times> int) list" where
  "ranking img_blocks = sorted_blocks (count_block_frequencies img_blocks)"

definition rank_color :: "config \<Rightarrow> 'a list \<Rightarrow> nat \<Rightarrow> color option" where
  "rank_color cfg img_blocks i =
     assign_colors_to_blocks (count_block_frequencies img_blocks) (generate_color_palette cfg)
       (fst (ranking img_blocks ! i))"

text \<open>An input of 53 one-byte blocks that are all different: the bytes 0 to 52.\<close>

definition distinct_bytes_53 :: "block list" where
  "distinct_bytes_53 = map (\<lambda>n. [of_nat n]) [0 ..< 53]"

section \<open>Auxiliary facts\<close>

subsection \<open>Errors, slices and ranges\<close>

lemma bind_err_Inr [simp]: "bind_err (Inr v) f = f v"
  by (simp add: bind_err_def)

lemma bind_err_Inl [simp]: "bind_err (Inl e) f = Inl e"
  by (simp add: bind_err_def)

lemma py_slice_take_drop:
  assumes "lo \<le> hi" "hi \<le> length xs"
  shows "py_slice xs (int lo) (int hi) = take (hi - lo) (drop lo xs)"
proof -
  have "slice_bound xs (int lo) = lo" "slice_bound xs (int hi) = hi"
    using assms by (simp_all add: slice_bound_def)
  then show ?thesis by (simp add: py_slice_def drop_take)
qed

lemma range_up_empty: "stop \<le> i \<Longrightarrow> range_up i stop step = []"
  by (subst range_up.simps) simp

lemma range_down_empty: "i \<le> stop \<Longrightarrow> range_down i stop step = []"
  by (subst range_down.simps) simp

lemma range_up_multiples:
  assumes "0 < b" "k \<le> m"
  shows "range_up (int (k * b)) (int (m * b)) (int b) = map (\<lambda>j. int (j * b)) [k ..< m]"
  using assms
proof (induction "m - k" arbitrary: k)
  case 0
  then show ?case by (simp add: range_up_empty)
next
  case (Suc d)
  then have lt: "k < m" and d: "d = m - Suc k" by linarith+
  have step: "int (k * b) + int b = int (Suc k * b)" by simp
  have "k * b < m * b" using lt \<open>0 < b\<close> by simp
  then have "range_up (int (k * b)) (int (m * b)) (int b) =
      int (k * b) # range_up (int (k * b) + int b) (int (m * b)) (int b)"
    using \<open>0 < b\<close> by (subst range_up.simps) (simp del: of_nat_mult of_nat_add)
  then have "range_up (int (k * b)) (int (m * b)) (int b) =
      int (k * b) # range_up (int (Suc k * b)) (int (m * b)) (int b)"
    by (simp only: step)
  also have "range_up (int (Suc k * b)) (int (m * b)) (int b) = map (\<lambda>j. int (j * b)) [Suc k ..< m]"
    using Suc.hyps(1) [OF d] Suc.prems lt by simp
  finally show ?case using lt by (simp add: upt_conv_Cons)
qed

subsection \<open>Truncation and chunking\<close>

lemma truncate_bytes_pos:
  assumes "block_size cfg = int b" "0 < b"
  shows "truncate_bytes cfg img_data = Inr (take (length img_data div b * b) img_data)"
proof -
  let ?n = "length img_data"
  have m: "int ?n mod int b = int (?n mod b)" by (simp add: zmod_int)
  have "int ?n - int (?n mod b) = int (?n div b * b)"
    by (metis add_diff_cancel_right' div_mult_mod_eq of_nat_add)
  moreover have "py_slice img_data 0 (int (?n div b * b)) = take (?n div b * b - 0) (drop 0 img_data)"
    using py_slice_take_drop [of 0 "?n div b * b" img_data] by simp
  ultimately show ?thesis using assms
    by (simp add: truncate_bytes_def py_mod_def m)
qed

lemma truncate_bytes_zero:
  "block_size cfg = 0 \<Longrightarrow> truncate_bytes cfg img_data = Inl ZeroDivisionError"
  by (simp add: truncate_bytes_def py_mod_def)

lemma truncate_bytes_neg:
  assumes "block_size cfg < 0"
  shows "truncate_bytes cfg img_data = Inr img_data"
proof -
  have "int (length img_data) mod block_size cfg \<le> 0"
    using assms by simp
  then have "slice_bound img_data (int (length img_data) - int (length img_data) mod block_size cfg)
      = length img_data"
    by (simp add: slice_bound_def)
  moreover have "slice_bound img_data 0 = 0" by (simp add: slice_bound_def)
  ultimately show ?thesis using assms
    by (simp add: truncate_bytes_def py_mod_def py_slice_def)
qed

lemma break_into_blocks_pos:
  assumes "block_size cfg = int b" "0 < b" "length img_data = m * b"
  shows "break_into_blocks cfg img_data =
           Inr (map (\<lambda>j. take b (drop (j * b) img_data)) [0 ..< m])"
proof -
  have r: "py_range 0 (int (length img_data)) (int b) = Inr (map (\<lambda>j. int (j * b)) [0 ..< m])"
    using range_up_multiples [of b 0 m] assms by (simp add: py_range_def)
  have "py_slice img_data (int (j * b)) (int (j * b) + int b) = take b (drop (j * b) img_data)"
    if "j < m" for j
  proof -
    have "Suc j * b \<le> m * b" using that by (intro mult_le_mono1) simp
    then have "j * b + b \<le> length img_data" using assms by simp
    then show ?thesis
      using py_slice_take_drop [of "j * b" "j * b + b" img_data] by simp
  qed
  then show ?thesis
    by (simp add: break_into_blocks_def assms(1) r comp_def del: of_nat_mult of_nat_add)
qed

lemma break_into_blocks_neg:
  "block_size cfg < 0 \<Longrightarrow> break_into_blocks cfg img_data = Inr []"
  by (simp add: break_into_blocks_def py_range_def range_down_empty)

lemma concat_chunks:
  "m * b \<le> length xs \<Longrightarrow> concat (map (\<lambda>j. take b (drop (j * b) xs)) [0 ..< m]) = take (m * b) xs"
proof (induction m)
  case 0
  then show ?case by simp
next
  case (Suc m)
  then have "concat (map (\<lambda>j. take b (drop (j * b) xs)) [0 ..< m]) = take (m * b) xs" by simp
  moreover have "take (Suc m * b) xs = take (m * b) xs @ take b (drop (m * b) xs)"
    using take_add [of "m * b" b xs] by (simp add: add.commute)
  ultimately show ?case by simp
qed

text \<open>Both steps of the chunking together, for a positive block size: the blocks are
  cut from the first \<open>length data div b * b\<close> bytes alone.\<close>

lemma chunking_pos:
  assumes "block_size cfg = int b" "0 < b" "fs (image_path cfg) = Some data"
  shows "read_image_bytes cfg fs = Inr (take (length data div b * b) data)"
    and "break_into_blocks cfg (take (length data div b * b) data) =
           Inr (map (\<lambda>j. take b (drop (j * b) (take (length data div b * b) data)))
                  [0 ..< length data div b])"
proof -
  show "read_image_bytes cfg fs = Inr (take (length data div b * b) data)"
    using assms by (simp add: read_image_bytes_def truncate_bytes_pos)
  have "length data div b * b \<le> length data" by simp
  then have "length (take (length data div b * b) data) = length data div b * b" by simp
  then show "break_into_blocks cfg (take (length data div b * b) data) =
           Inr (map (\<lambda>j. take b (drop (j * b) (take (length data div b * b) data)))
                  [0 ..< length data div b])"
    using assms by (intro break_into_blocks_pos) simp_all
qed

subsection \<open>The palette\<close>

lemma foldl_snoc_map: "foldl (\<lambda>acc i. acc @ [f i]) acc xs = acc @ map f xs"
  by (induction xs arbitrary: acc) auto

lemma generate_color_palette_eq:
  "generate_color_palette cfg =
     (255, 255, 255) # map palette_color [1 .. max_colors cfg - 2] @ [(0, 0, 0)]"
  by (simp add: generate_color_palette_def foldl_snoc_map)

lemma length_generate_color_palette:
  "length (generate_color_palette cfg) = nat (max_colors cfg - 2) + 2"
  by (simp add: generate_color_palette_eq)

lemma generate_color_palette_first: "generate_color_palette cfg ! 0 = (255, 255, 255)"
  by (simp add: generate_color_palette_eq)

lemma generate_color_palette_nth:
  assumes "1 \<le> i" "i \<le> max_colors cfg - 2"
  shows "generate_color_palette cfg ! nat i = palette_color i"
proof -
  obtain k where k: "nat i = Suc k" using assms by (cases "nat i") auto
  have ik: "int k = i - 1" using k by linarith
  have lt: "k < nat (max_colors cfg - 2)" using assms ik by linarith
  have "[1 .. max_colors cfg - 2] ! k = 1 + int k"
    using assms ik by (intro nth_upto) linarith
  then show ?thesis using lt ik k
    by (simp add: generate_color_palette_eq nth_append)
qed

lemma generate_color_palette_last:
  "generate_color_palette cfg ! (nat (max_colors cfg - 2) + 1) = (0, 0, 0)"
  by (simp add: generate_color_palette_eq nth_append)

subsection \<open>Counting and ranking\<close>

lemma Counter_snoc: "Counter (xs @ [x]) = counter_add x (Counter xs)"
  by (simp add: Counter_def)

lemma keys_counter_add_old: "x \<in> fst ` set m \<Longrightarrow> map fst (counter_add x m) = map fst m"
  by (induction m) force+

lemma keys_counter_add_new: "x \<notin> fst ` set m \<Longrightarrow> map fst (counter_add x m) = map fst m @ [x]"
  by (induction m) auto

lemma keys_counter_add:
  "map fst (counter_add x m) = (if x \<in> fst ` set m then map fst m else map fst m @ [x])"
  by (simp add: keys_counter_add_old keys_counter_add_new)

lemma map_of_counter_add:
  "map_of (counter_add x m) =
     (map_of m)(x \<mapsto> (case map_of m x of None \<Rightarrow> 1 | Some c \<Rightarrow> c + 1))"
  by (induction m) (auto simp: fun_eq_iff)

lemma keys_Counter: "set (map fst (Counter xs)) = set xs"
proof (induction xs rule: rev_induct)
  case Nil
  then show ?case by (simp add: Counter_def)
next
  case (snoc x xs)
  then show ?case by (auto simp: Counter_snoc keys_counter_add)
qed

lemma distinct_keys_Counter: "distinct (map fst (Counter xs))"
proof (induction xs rule: rev_induct)
  case Nil
  then show ?case by (simp add: Counter_def)
next
  case (snoc x xs)
  then show ?case by (simp add: Counter_snoc keys_counter_add)
qed

lemma map_of_Counter:
  "map_of (Counter xs) k = (if k \<in> set xs then Some (int (count_list xs k)) else None)"
proof (induction xs rule: rev_induct)
  case Nil
  then show ?case by (simp add: Counter_def)
next
  case (snoc x xs)
  then show ?case by (auto simp: Counter_snoc map_of_counter_add)
qed

lemma Counter_counts:
  assumes "(k, c) \<in> set (Counter xs)"
  shows "c = int (count_list xs k)"
proof -
  have "map_of (Counter xs) k = Some c"
    by (rule map_of_is_SomeI [OF distinct_keys_Counter assms])
  then show ?thesis by (simp add: map_of_Counter split: if_splits)
qed

lemma first_index_snoc_old: "k \<in> set xs \<Longrightarrow> first_index (xs @ [x]) k = first_index xs k"
  by (simp add: first_index_def takeWhile_append1) 

lemma first_index_less: "k \<in> set xs \<Longrightarrow> first_index xs k < length xs"
  unfolding first_index_def by (induction xs) auto

lemma first_index_snoc_new: "x \<notin> set xs \<Longrightarrow> first_index (xs @ [x]) x = length xs"
  unfolding first_index_def by (induction xs) auto

lemma Counter_first_seen:
  "sorted_wrt (\<lambda>a b. first_index xs a < first_index xs b) (map fst (Counter xs))"
proof (induction xs rule: rev_induct)
  case Nil
  then show ?case by (simp add: Counter_def)
next
  case (snoc x xs)
  let ?ks = "map fst (Counter xs)"
  have old: "sorted_wrt (\<lambda>a b. first_index (xs @ [x]) a < first_index (xs @ [x]) b) ?ks"
    using snoc.IH
    by (rule sorted_wrt_mono_rel [rotated]) (simp add: first_index_snoc_old keys_Counter [simplified])
  show ?case
  proof (cases "x \<in> set xs")
    case True
    then show ?thesis using old by (simp add: Counter_snoc keys_counter_add keys_Counter [simplified])
  next
    case False
    then show ?thesis using old
      by (simp add: Counter_snoc keys_counter_add keys_Counter [simplified] sorted_wrt_append
          first_index_snoc_old first_index_snoc_new first_index_less)
  qed
qed

lemma set_sorted_reverse: "set (sorted_reverse f xs) = set xs"
  by (simp add: sorted_reverse_def)

lemma length_sorted_reverse: "length (sorted_reverse f xs) = length xs"
  by (simp add: sorted_reverse_def)

lemma distinct_sorted_reverse: "distinct (sorted_reverse f xs) = distinct xs"
  by (simp add: sorted_reverse_def)

lemma sorted_reverse_descending: "sorted_wrt (\<lambda>p q. f q \<le> f p) (sorted_reverse f xs)"
proof -
  have "sorted (map f (sort_key f (rev xs)))" by (rule sorted_sort_key)
  then show ?thesis by (simp add: sorted_reverse_def sorted_wrt_rev sorted_map)
qed

lemma sorted_reverse_stable:
  "filter (\<lambda>y. f y = k) (sorted_reverse f xs) = filter (\<lambda>y. f y = k) xs"
  by (simp add: sorted_reverse_def rev_filter [symmetric] sort_key_stable)

lemma distinct_keys_sorted_reverse:
  "distinct (map fst (sorted_reverse f xs)) = distinct (map fst xs)"
  by (simp add: distinct_map set_sorted_reverse distinct_sorted_reverse)

lemma sorted_wrt_filter_nth:
  assumes "sorted_wrt P (filter Q xs)" "i < j" "j < length xs" "Q (xs ! i)" "Q (xs ! j)"
  shows "P (xs ! i) (xs ! j)"
  using assms
proof (induction xs arbitrary: i j)
  case Nil
  then show ?case by simp
next
  case (Cons x xs)
  obtain j' where j: "j = Suc j'" using Cons.prems(2) by (cases j) auto
  show ?case
  proof (cases i)
    case 0
    then have "Q x" using Cons.prems by simp
    moreover have "xs ! j' \<in> set (filter Q xs)" using Cons.prems j by simp
    ultimately show ?thesis using Cons.prems(1) 0 j by simp
  next
    case (Suc i')
    have "sorted_wrt P (filter Q xs)" using Cons.prems(1) by (simp split: if_splits)
    then show ?thesis using Cons.IH [of i' j'] Cons.prems Suc j by simp
  qed
qed

lemma ranking_ties_first_seen:
  fixes blocks :: "'a list"
  assumes "i < j" "j < length (sorted_blocks (Counter blocks))"
    "snd (sorted_blocks (Counter blocks) ! i) = snd (sorted_blocks (Counter blocks) ! j)"
  shows "first_index blocks (fst (sorted_blocks (Counter blocks) ! i))
       < first_index blocks (fst (sorted_blocks (Counter blocks) ! j))"
proof -
  let ?r = "sorted_blocks (Counter blocks)"
  let ?c = "snd (?r ! j)"
  let ?P = "\<lambda>p q. first_index blocks (fst p) < first_index blocks (fst q)"
  have "sorted_wrt ?P (Counter blocks)"
    using Counter_first_seen [of blocks] by (simp add: sorted_wrt_map)
  then have "sorted_wrt ?P (filter (\<lambda>y. snd y = ?c) (Counter blocks))"
    by (rule sorted_wrt_filter)
  then have "sorted_wrt ?P (filter (\<lambda>y. snd y = ?c) ?r)"
    by (simp add: sorted_blocks_def sorted_reverse_stable)
  then show ?thesis
    using assms by (rule sorted_wrt_filter_nth) simp_all
qed

lemma assign_loop_other:
  "blk \<notin> fst ` set rest \<Longrightarrow> assign_loop pal i rest m blk = m blk"
  by (induction rest arbitrary: i m) auto

lemma assign_loop_nth:
  assumes "distinct (map fst xs)" "j < length xs"
  shows "assign_loop pal i xs m (fst (xs ! j)) =
           Some (if int (i + j) < int (length pal) - 1 then pal ! (i + j) else (0, 0, 0))"
  using assms
proof (induction xs arbitrary: i m j)
  case Nil
  then show ?case by simp
next
  case (Cons p xs)
  obtain blk c where p: "p = (blk, c)" by (cases p)
  show ?case
  proof (cases j)
    case 0
    then show ?thesis using Cons.prems p by (simp add: assign_loop_other)
  next
    case (Suc j')
    then show ?thesis using Cons.IH [of j' "Suc i"] Cons.prems p by simp
  qed
qed

subsection \<open>Expansion into pixels\<close>

lemma expand_loop_eq:
  assumes "pixels_per_block cfg \<noteq> 0"
  shows "expand_loop cfg blocks m acc =
     Inr (acc @ concat (map (\<lambda>b. replicate (nat (block_size cfg div pixels_per_block cfg))
                                  (dict_get m b (0, 0, 0))) blocks))"
  using assms by (induction blocks arbitrary: acc) (simp_all add: py_floordiv_def)

lemma length_concat_replicate:
  "length (concat (map (\<lambda>b. replicate n (g b)) bs)) = length bs * n"
  by (induction bs) simp_all

lemma nth_concat_replicate:
  assumes "j < length bs" "t < n"
  shows "concat (map (\<lambda>b. replicate n (g b)) bs) ! (j * n + t) = g (bs ! j)"
  using assms
proof (induction bs arbitrary: j)
  case Nil
  then show ?case by simp
next
  case (Cons b bs)
  show ?case
  proof (cases j)
    case 0
    then show ?thesis using Cons.prems by (simp add: nth_append)
  next
    case (Suc j')
    then have "j * n + t = n + (j' * n + t)" by simp
    then show ?thesis using Cons.IH [of j'] Cons.prems Suc
      by (simp add: nth_append del: mult_Suc)
  qed
qed

subsection \<open>Square root, ceiling and raster arithmetic\<close>

lemma isqrt_bounds: "isqrt n * isqrt n \<le> n \<and> n < (isqrt n + 1) * (isqrt n + 1)"
proof (induction n)
  case 0
  then show ?case by simp
next
  case (Suc n)
  let ?r = "isqrt n"
  show ?case
  proof (cases "(?r + 1) * (?r + 1) \<le> Suc n")
    case True
    then have eq: "isqrt (Suc n) = ?r + 1" by (simp add: Let_def)
    have "Suc n = (?r + 1) * (?r + 1)" using True Suc.IH by linarith
    then have "Suc n < (?r + 1 + 1) * (?r + 1 + 1)" by simp
    then show ?thesis using True eq by simp
  next
    case False
    then have eq: "isqrt (Suc n) = ?r" by (simp add: Let_def)
    have "?r * ?r \<le> Suc n" using Suc.IH by linarith
    moreover have "Suc n < (?r + 1) * (?r + 1)" using False by linarith
    ultimately show ?thesis using eq by simp
  qed
qed

lemma isqrt_floor_sqrt: "int (isqrt n) = \<lfloor>sqrt (real n)\<rfloor>"
proof -
  let ?r = "isqrt n"
  have "real (?r * ?r) \<le> real n"
    using isqrt_bounds [of n] by (intro of_nat_mono) simp
  then have le: "(real ?r)\<^sup>2 \<le> real n"
    by (simp add: power2_eq_square)
  have "real n < real ((?r + 1) * (?r + 1))"
    using isqrt_bounds [of n] by (simp only: of_nat_less_iff)
  then have lt: "real n < (real ?r + 1)\<^sup>2"
    by (simp add: power2_eq_square algebra_simps)
  have "real ?r \<le> sqrt (real n)"
    using le by (rule real_le_rsqrt)
  moreover have "sqrt (real n) < real ?r + 1"
    using lt by (intro real_less_lsqrt) simp_all
  ultimately have "\<lfloor>sqrt (real n)\<rfloor> = int ?r"
    by (intro floor_unique) simp_all
  then show ?thesis by simp
qed

lemma isqrt_pos: "0 < n \<Longrightarrow> 0 < isqrt n"
  using isqrt_bounds [of n] by (cases "isqrt n") auto

lemma ceiling_div:
  assumes "0 < (w::int)"
  shows "\<lceil>real_of_int n / real_of_int w\<rceil> = (if n mod w \<noteq> 0 then n div w + 1 else n div w)"
proof -
  have "\<lceil>real_of_int n / real_of_int w\<rceil> = - ((- n) div w)"
    by (simp add: ceiling_divide_eq_div)
  also have "\<dots> = (if n mod w \<noteq> 0 then n div w + 1 else n div w)"
    using assms by (simp add: zdiv_zminus1_eq_if)
  finally show ?thesis .
qed

lemma div_less_height:
  assumes "0 < (w::int)" "0 \<le> i" "i < w * h"
  shows "0 \<le> i div w \<and> i div w < h"
proof -
  have "i = w * (i div w) + i mod w" by simp
  moreover have "0 \<le> i mod w" using assms(1) by simp
  ultimately have "w * (i div w) \<le> i" by linarith
  then have "w * (i div w) < w * h" using assms by linarith
  then have "i div w < h" using assms(1) by (simp add: mult_less_cancel_left_pos)
  moreover have "0 \<le> i div w" using assms by (simp add: pos_imp_zdiv_nonneg_iff)
  ultimately show ?thesis by simp
qed

lemma raster_covers:
  assumes "0 < (w::int)"
  shows "n \<le> w * (if n mod w \<noteq> 0 then n div w + 1 else n div w)"
proof -
  have n: "n = w * (n div w) + n mod w" by simp
  have lt: "n mod w < w" using assms by simp
  have "w * (n div w + 1) = w * (n div w) + w" by (simp add: distrib_left)
  then have "n \<le> w * (n div w + 1)" using n lt by linarith
  moreover have "n mod w = 0 \<Longrightarrow> n \<le> w * (n div w)" using n by simp
  ultimately show ?thesis by simp
qed

subsection \<open>Drawing\<close>

lemma pixel_position_inj:
  assumes "pixel_position cfg w h i = pixel_position cfg w h j"
  shows "i = j"
proof -
  have m: "int i mod w = int j mod w" and d: "int i div w = int j div w"
    using assms by (auto simp: pixel_position_def Let_def split: if_splits)
  have "int i = w * (int i div w) + int i mod w" by simp
  also have "\<dots> = w * (int j div w) + int j mod w" by (simp only: m d)
  also have "\<dots> = int j" by simp
  finally show ?thesis by simp
qed

lemma pixel_position_bounds:
  assumes "0 < w" "int i < w * h"
  shows "0 \<le> fst (pixel_position cfg w h i) \<and> fst (pixel_position cfg w h i) < w
       \<and> 0 \<le> snd (pixel_position cfg w h i) \<and> snd (pixel_position cfg w h i) < h"
  using div_less_height [of w "int i" h] assms
  by (auto simp: pixel_position_def Let_def)

lemma draw_step:
  assumes "0 < w" "int i < w * h"
  shows "(if snd (pixel_position cfg w h i) < h
          then draw_point w h px (pixel_position cfg w h i) c else px)
         = px(pixel_position cfg w h i \<mapsto> c)"
  using pixel_position_bounds [OF assms, of cfg] by (simp add: draw_point_def)

lemma draw_step_other:
  assumes "pixel_position cfg w h i \<noteq> p"
  shows "(if snd (pixel_position cfg w h i) < h
          then draw_point w h px (pixel_position cfg w h i) c else px) p = px p"
  using assms by (simp add: draw_point_def)

lemma draw_loop_other:
  assumes "\<forall>k<length cs. pixel_position cfg w h (idx + k) \<noteq> p"
  shows "draw_loop cfg w h idx cs px p = px p"
  using assms
proof (induction cs arbitrary: idx px)
  case Nil
  then show ?case by simp
next
  case (Cons c cs)
  have "\<forall>k<length cs. pixel_position cfg w h (Suc idx + k) \<noteq> p"
    using Cons.prems by auto
  moreover have "pixel_position cfg w h idx \<noteq> p" using Cons.prems by fastforce
  ultimately show ?case
    using Cons.IH [of "Suc idx"] by (simp add: draw_step_other del: add_Suc)
qed

lemma draw_loop_nth:
  assumes "0 < w" "int (idx + length cs) \<le> w * h" "k < length cs"
  shows "draw_loop cfg w h idx cs px (pixel_position cfg w h (idx + k)) = Some (cs ! k)"
  using assms
proof (induction cs arbitrary: idx px k)
  case Nil
  then show ?case by simp
next
  case (Cons c cs)
  have step: "(if snd (pixel_position cfg w h idx) < h
          then draw_point w h px (pixel_position cfg w h idx) c else px)
         = px(pixel_position cfg w h idx \<mapsto> c)"
    using Cons.prems by (intro draw_step) simp_all
  show ?case
  proof (cases k)
    case 0
    have "\<forall>j<length cs. pixel_position cfg w h (Suc idx + j) \<noteq> pixel_position cfg w h idx"
      using pixel_position_inj [of cfg w h] by fastforce
    then show ?thesis using 0 by (simp add: step draw_loop_other del: add_Suc)
  next
    case (Suc k')
    then show ?thesis using Cons.IH [of "Suc idx" k'] Cons.prems by (simp add: step)
  qed
qed


lemma render_empty: "render cfg [] = Inl ZeroDivisionError"
  by (simp add: render_def py_floordiv_def)

lemma render_nonempty:
  assumes "pixel_colors \<noteq> []"
  shows "render cfg pixel_colors =
     Inr \<lparr>img_width = int (isqrt (length pixel_colors)),
          img_height = (if int (length pixel_colors) mod int (isqrt (length pixel_colors)) \<noteq> 0
                        then int (length pixel_colors) div int (isqrt (length pixel_colors)) + 1
                        else int (length pixel_colors) div int (isqrt (length pixel_colors))),
          img_pixels = draw_loop cfg (int (isqrt (length pixel_colors)))
             (if int (length pixel_colors) mod int (isqrt (length pixel_colors)) \<noteq> 0
                        then int (length pixel_colors) div int (isqrt (length pixel_colors)) + 1
                        else int (length pixel_colors) div int (isqrt (length pixel_colors)))
             0 pixel_colors Map.empty\<rparr>"
proof -
  have "0 < isqrt (length pixel_colors)" using assms by (simp add: isqrt_pos)
  then show ?thesis
    by (simp add: render_def py_floordiv_def py_mod_def Let_def del: of_nat_mult of_nat_add)
qed

lemma chunk_of_prefix:
  assumes "j < m" "m * b \<le> length xs"
  shows "take b (drop (j * b) (take (m * b) xs)) = take b (drop (j * b) xs)"
    and "length (take b (drop (j * b) xs)) = b"
proof -
  have "Suc j * b \<le> m * b" using assms(1) by (intro mult_le_mono1) simp
  then have le: "j * b + b \<le> m * b" by simp
  then have "min b (m * b - j * b) = b" by linarith
  then show "take b (drop (j * b) (take (m * b) xs)) = take b (drop (j * b) xs)"
    by (simp add: drop_take)
  show "length (take b (drop (j * b) xs)) = b"
    using le assms(2) by simp
qed

subsection \<open>Colours of the ranks\<close>

lemma dvd255_50: "255 dvd 50 * d \<longleftrightarrow> 51 dvd (d::int)"
proof
  assume "255 dvd 50 * d"
  then obtain k where "50 * d = 255 * k" by (auto simp: dvd_def)
  then have "d = 51 * (d - 5 * k)" unfolding right_diff_distrib by linarith
  then show "51 dvd d" by (rule dvdI)
next
  assume "51 dvd d"
  then obtain k where "d = 51 * k" by (auto simp: dvd_def)
  then have "50 * d = 255 * (10 * k)" by simp
  then show "255 dvd 50 * d" by (rule dvdI)
qed

lemma dvd255_80: "255 dvd 80 * d \<longleftrightarrow> 51 dvd (d::int)"
proof
  assume "255 dvd 80 * d"
  then obtain k where "80 * d = 255 * k" by (auto simp: dvd_def)
  then have "d = 51 * (11 * d - 35 * k)" unfolding right_diff_distrib by linarith
  then show "51 dvd d" by (rule dvdI)
next
  assume "51 dvd d"
  then obtain k where "d = 51 * k" by (auto simp: dvd_def)
  then have "80 * d = 255 * (16 * k)" by simp
  then show "255 dvd 80 * d" by (rule dvdI)
qed

lemma dvd255_110: "255 dvd 110 * d \<longleftrightarrow> 51 dvd (d::int)"
proof
  assume "255 dvd 110 * d"
  then obtain k where "110 * d = 255 * k" by (auto simp: dvd_def)
  then have "d = 51 * (41 * d - 95 * k)" unfolding right_diff_distrib by linarith
  then show "51 dvd d" by (rule dvdI)
next
  assume "51 dvd d"
  then obtain k where "d = 51 * k" by (auto simp: dvd_def)
  then have "110 * d = 255 * (22 * k)" by simp
  then show "255 dvd 110 * d" by (rule dvdI)
qed

lemma mod255_eq_iff:
  fixes i j :: int
  shows "i * 50 mod 255 = j * 50 mod 255 \<longleftrightarrow> 51 dvd (j - i)"
    "i * 80 mod 255 = j * 80 mod 255 \<longleftrightarrow> 51 dvd (j - i)"
    "i * 110 mod 255 = j * 110 mod 255 \<longleftrightarrow> 51 dvd (j - i)"
proof -
  have a: "j * 50 - i * 50 = 50 * (j - i)" "j * 80 - i * 80 = 80 * (j - i)"
    "j * 110 - i * 110 = 110 * (j - i)" by (simp_all add: algebra_simps)
  have c: "(x = y) = (y = x)" for x y :: int by auto
  show "i * 50 mod 255 = j * 50 mod 255 \<longleftrightarrow> 51 dvd (j - i)"
    by (subst c) (simp only: mod_eq_dvd_iff a(1) dvd255_50)
  show "i * 80 mod 255 = j * 80 mod 255 \<longleftrightarrow> 51 dvd (j - i)"
    by (subst c) (simp only: mod_eq_dvd_iff a(2) dvd255_80)
  show "i * 110 mod 255 = j * 110 mod 255 \<longleftrightarrow> 51 dvd (j - i)"
    by (subst c) (simp only: mod_eq_dvd_iff a(3) dvd255_110)
qed

lemma mod255_ne_255: "(x::int) mod 255 \<noteq> 255"
proof -
  have "x mod 255 < 255" by simp
  then show ?thesis by linarith
qed

lemma mod255_zero_iff:
  fixes i :: int
  shows "i * 50 mod 255 = 0 \<longleftrightarrow> 51 dvd i" "i * 80 mod 255 = 0 \<longleftrightarrow> 51 dvd i"
    "i * 110 mod 255 = 0 \<longleftrightarrow> 51 dvd i"
  using dvd255_50 [of i] dvd255_80 [of i] dvd255_110 [of i]
  by (simp_all add: mod_eq_0_iff_dvd mult.commute)

lemma palette_color_eq_iff:
  "palette_color i = palette_color j \<longleftrightarrow> 51 dvd (j - i)"
  by (simp add: palette_color_def mod255_eq_iff)

lemma palette_color_not_white: "palette_color i \<noteq> (255, 255, 255)"
  by (simp add: palette_color_def mod255_ne_255)

lemma palette_color_black_iff: "palette_color i = (0, 0, 0) \<longleftrightarrow> 51 dvd i"
  by (simp add: palette_color_def mod255_zero_iff)

lemma set_ranking: "set (ranking bl) = set (Counter bl)"
  by (simp add: ranking_def sorted_blocks_def count_block_frequencies_def set_sorted_reverse)

lemma length_ranking: "length (ranking bl) = length (Counter bl)"
  by (simp add: ranking_def sorted_blocks_def count_block_frequencies_def length_sorted_reverse)

lemma distinct_keys_ranking: "distinct (map fst (ranking bl))"
  by (simp add: ranking_def sorted_blocks_def count_block_frequencies_def
      distinct_keys_sorted_reverse distinct_keys_Counter)

lemma ranking_descending: "sorted_wrt (\<lambda>p q. snd q \<le> snd p) (ranking bl)"
  by (simp add: ranking_def sorted_blocks_def sorted_reverse_descending)

lemma rank_color_eq:
  assumes "i < length (ranking bl)"
  shows "rank_color cfg bl i =
     Some (if int i < int (length (generate_color_palette cfg)) - 1
           then generate_color_palette cfg ! i else (0, 0, 0))"
  using assign_loop_nth [OF distinct_keys_ranking assms, of "generate_color_palette cfg" 0 Map.empty]
  by (simp add: rank_color_def assign_colors_to_blocks_def ranking_def)

lemma rank_color_cases:
  assumes "2 \<le> max_colors cfg" "i < length (ranking bl)"
  shows "rank_color cfg bl i =
     Some (if i = 0 then (255, 255, 255)
           else if int i \<le> max_colors cfg - 2 then palette_color (int i) else (0, 0, 0))"
proof -
  have len: "int (length (generate_color_palette cfg)) = max_colors cfg"
    using assms(1) by (simp add: length_generate_color_palette)
  show ?thesis
  proof (cases "i = 0")
    case True
    then show ?thesis using assms
      by (simp add: rank_color_eq len generate_color_palette_first)
  next
    case False
    show ?thesis
    proof (cases "int i \<le> max_colors cfg - 2")
      case True
      have "generate_color_palette cfg ! nat (int i) = palette_color (int i)"
        using False True by (intro generate_color_palette_nth) simp_all
      then show ?thesis using assms False True
        by (simp add: rank_color_eq len)
    next
      case False
      then show ?thesis using assms \<open>i \<noteq> 0\<close>
        by (simp add: rank_color_eq len)
    qed
  qed
qed

lemma dvd_nat_diff:
  assumes "i < (j::nat)"
  shows "(51::int) dvd (int j - int i) \<longleftrightarrow> (51::nat) dvd (j - i)"
proof -
  have "int j - int i = int (j - i)" using assms by simp
  moreover have "(51::int) = int 51" by simp
  ultimately show ?thesis by (simp only: int_dvd_int_iff)
qed

lemma not_51_dvd_small:
  assumes "0 < (d::nat)" "d < 51"
  shows "\<not> 51 dvd d"
  using assms by (auto dest: dvd_imp_le)

subsection \<open>The run as a whole\<close>

lemma map_blocks_to_colors_eq:
  assumes "pixels_per_block cfg \<noteq> 0"
  shows "map_blocks_to_colors cfg img_blocks m =
     Inr (concat (map (\<lambda>b. replicate (nat (block_size cfg div pixels_per_block cfg))
                                  (dict_get m b (0, 0, 0))) img_blocks))"
  using expand_loop_eq [OF assms, of img_blocks m "[]"] by (simp add: map_blocks_to_colors_def)

lemma map_blocks_to_colors_Nil: "map_blocks_to_colors cfg [] m = Inr []"
  by (simp add: map_blocks_to_colors_def)


lemma pixel_stage_eq:
  assumes "read_image_bytes cfg fs = Inr img_data" "break_into_blocks cfg img_data = Inr img_blocks"
  shows "pixel_stage cfg fs =
     map_blocks_to_colors cfg img_blocks
       (assign_colors_to_blocks (count_block_frequencies img_blocks) (generate_color_palette cfg))"
  using assms by (simp add: pixel_stage_def Let_def)

lemma create_image_Inl: "render cfg pcs = Inl e \<Longrightarrow> create_image cfg pcs = ([], Inl e)"
  by (simp add: create_image_def)



lemma process_image_empty:
  "pixel_stage cfg fs = Inr [] \<Longrightarrow>
     process_image cfg fs = ([FileRead (image_path cfg)], Inl ZeroDivisionError)"
  by (simp add: process_image_def create_image_Inl [OF render_empty])


text \<open>What \<open>render\<close> returns for a non-empty pixel sequence, in terms of the width and the
  height that it computes.\<close>

lemma render_layout:
  assumes "pcs \<noteq> []"
  obtains img where "render cfg pcs = Inr img"
    and "img_width img = int (isqrt (length pcs))"
    and "0 < img_width img"
    and "img_height img = (if int (length pcs) mod img_width img \<noteq> 0
                           then int (length pcs) div img_width img + 1
                           else int (length pcs) div img_width img)"
    and "int (length pcs) \<le> img_width img * img_height img"
    and "img_pixels img = draw_loop cfg (img_width img) (img_height img) 0 pcs Map.empty"
proof -
  let ?w = "int (isqrt (length pcs))"
  let ?h = "if int (length pcs) mod ?w \<noteq> 0 then int (length pcs) div ?w + 1
            else int (length pcs) div ?w"
  let ?img = "\<lparr>img_width = ?w, img_height = ?h,
                img_pixels = draw_loop cfg ?w ?h 0 pcs Map.empty\<rparr>"
  have w: "0 < ?w" using assms by (simp add: isqrt_pos)
  have r: "render cfg pcs = Inr ?img" using render_nonempty [OF assms, of cfg] by simp
  have c: "int (length pcs) \<le> ?w * ?h" using raster_covers [OF w] by blast
  show ?thesis
    by (rule that [of ?img]) (use r w c in simp_all)
qed



subsection \<open>The scenario of 32 zero bytes\<close>


lemma color_map_two_equal_blocks:
  "assign_colors_to_blocks (count_block_frequencies [z, z]) (generate_color_palette cfg)
     = [z \<mapsto> generate_color_palette cfg ! 0]"
  by (simp add: assign_colors_to_blocks_def count_block_frequencies_def Counter_def
      sorted_blocks_def sorted_reverse_def length_generate_color_palette)

lemma zero_blocks_chunks:
  assumes "block_size cfg = 16" "fs (image_path cfg) = Some (replicate 32 0)"
  shows "read_image_bytes cfg fs = Inr (replicate 32 0)"
    and "break_into_blocks cfg (replicate 32 0) = Inr [replicate 16 0, replicate 16 0]"
proof -
  have b: "block_size cfg = int 16" "0 < (16::nat)" using assms(1) by simp_all
  note ch = chunking_pos [of cfg 16 fs "replicate 32 0", OF b assms(2)]
  show "read_image_bytes cfg fs = Inr (replicate 32 0)" using ch(1) by simp
  have "[0 ..< 2] = [0, Suc 0]" by (simp add: upt_conv_Cons)
  then show "break_into_blocks cfg (replicate 32 0) = Inr [replicate 16 0, replicate 16 0]"
    using ch(2) by simp
qed

lemma zero_blocks_pixels:
  assumes "block_size cfg = 16" "fs (image_path cfg) = Some (replicate 32 0)"
    "pixels_per_block cfg \<noteq> 0"
  shows "pixel_stage cfg fs =
     Inr (replicate (nat (16 div pixels_per_block cfg)) (255, 255, 255)
          @ replicate (nat (16 div pixels_per_block cfg)) (255, 255, 255))"
  using pixel_stage_eq [OF zero_blocks_chunks [of cfg fs, OF assms(1,2)]] assms(1,3)
  by (simp add: map_blocks_to_colors_eq color_map_two_equal_blocks dict_get_def
      generate_color_palette_first)

subsection \<open>Runs with degenerate parameters\<close>




section \<open>The properties\<close>

subsection \<open>Chunking\<close>

text \<open>
  C4. For an input file of \<open>L\<close> bytes and a positive block size \<open>B\<close>, reading and
  chunking succeed and give exactly \<open>L div B\<close> blocks, each of \<open>B\<close> bytes; block \<open>j\<close>
  is the bytes at offsets \<open>j * B\<close> up to \<open>j * B + B\<close>, so the blocks cover the buffer from
  offset 0 in strides that do not overlap and their concatenation is the first
  \<open>L - L mod B\<close> bytes. The last \<open>L mod B\<close> bytes are never referenced: replacing them
  by any other bytes gives the same blocks.
\<close>

theorem chunking_truncation:
  assumes "fs (image_path cfg) = Some data" "0 < block_size cfg"
  shows "\<exists>img_data blocks.
      read_image_bytes cfg fs = Inr img_data \<and> break_into_blocks cfg img_data = Inr blocks
    \<and> int (length blocks) = int (length data) div block_size cfg
    \<and> (\<forall>blk \<in> set blocks. int (length blk) = block_size cfg)
    \<and> (\<forall>j < length blocks.
          blocks ! j = take (nat (block_size cfg)) (drop (j * nat (block_size cfg)) data))
    \<and> concat blocks = take (length data - length data mod nat (block_size cfg)) data
    \<and> (\<forall>tail. length tail = length data mod nat (block_size cfg) \<longrightarrow>
          bind_err (read_image_bytes cfg
              (fs(image_path cfg \<mapsto>
                 take (length data - length data mod nat (block_size cfg)) data @ tail)))
            (break_into_blocks cfg) = Inr blocks)"
proof -
  define b where "b = nat (block_size cfg)"
  define m where "m = length data div b"
  define blocks where "blocks = map (\<lambda>j. take b (drop (j * b) (take (m * b) data))) [0 ..< m]"
  have b: "block_size cfg = int b" "0 < b" using assms(2) by (simp_all add: b_def)
  have K: "length data - length data mod b = m * b"
    unfolding m_def by (metis add_diff_cancel_right' div_mult_mod_eq)
  have mb: "m * b \<le> length data" unfolding m_def by simp
  have rd: "read_image_bytes cfg fs = Inr (take (m * b) data)"
    and br: "break_into_blocks cfg (take (m * b) data) = Inr blocks"
    using chunking_pos [of cfg b fs data, OF b assms(1)] by (simp_all add: m_def blocks_def)
  have len: "int (length blocks) = int (length data) div block_size cfg"
    by (simp add: blocks_def m_def b zdiv_int)
  have nth: "blocks ! j = take b (drop (j * b) data)" if "j < length blocks" for j
    using that chunk_of_prefix(1) [OF _ mb] by (simp add: blocks_def)
  have each: "int (length blk) = block_size cfg" if "blk \<in> set blocks" for blk
  proof -
    from that obtain j where "j < length blocks" "blk = blocks ! j"
      unfolding in_set_conv_nth by blast
    then have "j < m" "blk = take b (drop (j * b) data)"
      using nth by (simp_all add: blocks_def)
    then show ?thesis using chunk_of_prefix(2) [OF _ mb] b by simp
  qed
  have cat: "concat blocks = take (m * b) data"
    using concat_chunks [of m b "take (m * b) data"] mb by (simp add: blocks_def)
  have indep: "bind_err (read_image_bytes cfg (fs(image_path cfg \<mapsto> take (m * b) data @ tail)))
            (break_into_blocks cfg) = Inr blocks"
    if "length tail = length data mod b" for tail
  proof -
    define d where "d = take (m * b) data @ tail"
    have "length data mod b \<le> length data" by (rule mod_less_eq_dividend)
    then have "m * b + length data mod b = length data" using K by linarith
    then have l: "length d = length data" using that mb by (simp add: d_def)
    have pre: "take (m * b) d = take (m * b) data" using mb by (simp add: d_def)
    have "(fs(image_path cfg \<mapsto> d)) (image_path cfg) = Some d" by simp
    from chunking_pos(1) [of cfg b "fs(image_path cfg \<mapsto> d)" d, OF b this]
    have "read_image_bytes cfg (fs(image_path cfg \<mapsto> d)) = Inr (take (m * b) data)"
      by (simp only: l m_def [symmetric] pre)
    then show ?thesis using br by (simp add: d_def)
  qed
  show ?thesis
    unfolding b_def [symmetric] K
    using rd br len each nth cat indep by blast
qed

theorem chunking_truncation_witness:
  "\<exists>img_data blocks.
      read_image_bytes (ECBImageProcessor ''f'' 2 254 True 1) [''f'' \<mapsto> [1, 2, 3, 4, 5]] = Inr img_data
    \<and> break_into_blocks (ECBImageProcessor ''f'' 2 254 True 1) img_data = Inr blocks
    \<and> length blocks = 2 \<and> blocks ! 1 = [3, 4] \<and> concat blocks = [1, 2, 3, 4]
    \<and> bind_err (read_image_bytes (ECBImageProcessor ''f'' 2 254 True 1) [''f'' \<mapsto> [1, 2, 3, 4, 9]])
          (break_into_blocks (ECBImageProcessor ''f'' 2 254 True 1)) = Inr blocks"
proof -
  let ?cfg = "ECBImageProcessor ''f'' 2 254 True 1"
  let ?data = "[1, 2, 3, 4, 5] :: byte list"
  let ?fs = "[''f'' \<mapsto> ?data]"
  have p: "image_path ?cfg = ''f''" and b: "block_size ?cfg = 2"
    by (simp_all add: ECBImageProcessor_def)
  have h1: "?fs (image_path ?cfg) = Some ?data" by (simp add: p)
  have h2: "0 < block_size ?cfg" by (simp add: b)
  from chunking_truncation [of ?fs ?cfg ?data, OF h1 h2] obtain img_data blocks where
    rd: "read_image_bytes ?cfg ?fs = Inr img_data" "break_into_blocks ?cfg img_data = Inr blocks"
    and len: "int (length blocks) = int (length ?data) div block_size ?cfg"
    and nth: "\<forall>j < length blocks.
          blocks ! j = take (nat (block_size ?cfg)) (drop (j * nat (block_size ?cfg)) ?data)"
    and cat: "concat blocks = take (length ?data - length ?data mod nat (block_size ?cfg)) ?data"
    and ind: "\<forall>tail. length tail = length ?data mod nat (block_size ?cfg) \<longrightarrow>
          bind_err (read_image_bytes ?cfg
              (?fs(image_path ?cfg \<mapsto>
                 take (length ?data - length ?data mod nat (block_size ?cfg)) ?data @ tail)))
            (break_into_blocks ?cfg) = Inr blocks"
    by blast
  have l2: "length blocks = 2" using len by (simp add: b)
  then have n1: "blocks ! 1 = [3, 4]" using nth by (simp add: b)
  have c: "concat blocks = [1, 2, 3, 4]" using cat by (simp add: b)
  have "length [9 :: byte] = length ?data mod nat (block_size ?cfg)" by (simp add: b)
  with ind have "bind_err (read_image_bytes ?cfg
              (?fs(image_path ?cfg \<mapsto>
                 take (length ?data - length ?data mod nat (block_size ?cfg)) ?data @ [9])))
            (break_into_blocks ?cfg) = Inr blocks" by blast
  then have i: "bind_err (read_image_bytes ?cfg [''f'' \<mapsto> [1, 2, 3, 4, 9]])
          (break_into_blocks ?cfg) = Inr blocks" by (simp add: b p)
  show ?thesis using rd l2 n1 c i by blast
qed

subsection \<open>The palette\<close>

text \<open>
  C2 (as amended). For \<open>max_colors \<ge> 2\<close>, palette generation produces exactly
  \<open>max_colors\<close> colours: entry 0 is pure white, entry \<open>max_colors - 1\<close> is pure black, and
  for every index \<open>i\<close> with \<open>1 \<le> i \<le> max_colors - 2\<close> entry \<open>i\<close> has the components
  \<open>(i * 50) mod 255\<close>, \<open>(i * 80) mod 255\<close> and \<open>(i * 110) mod 255\<close>. The modulus of the
  source is 255, not 256.
\<close>

theorem palette_layout:
  assumes "2 \<le> max_colors cfg"
  shows "int (length (generate_color_palette cfg)) = max_colors cfg
    \<and> generate_color_palette cfg ! 0 = (255, 255, 255)
    \<and> generate_color_palette cfg ! nat (max_colors cfg - 1) = (0, 0, 0)
    \<and> (\<forall>i. 1 \<le> i \<and> i \<le> max_colors cfg - 2 \<longrightarrow>
          generate_color_palette cfg ! nat i = (i * 50 mod 255, i * 80 mod 255, i * 110 mod 255))"
proof -
  have "nat (max_colors cfg - 1) = nat (max_colors cfg - 2) + 1" using assms by linarith
  then have "generate_color_palette cfg ! nat (max_colors cfg - 1) = (0, 0, 0)"
    by (simp only: generate_color_palette_last)
  moreover have "int (length (generate_color_palette cfg)) = max_colors cfg"
    using assms by (simp add: length_generate_color_palette)
  ultimately show ?thesis
    using generate_color_palette_nth [of _ cfg]
    by (simp add: generate_color_palette_first palette_color_def)
qed

theorem palette_layout_witness:
  "int (length (generate_color_palette (ECBImageProcessor ''f'' 16 254 True 16))) = 254
   \<and> generate_color_palette (ECBImageProcessor ''f'' 16 254 True 16) ! 253 = (0, 0, 0)
   \<and> generate_color_palette (ECBImageProcessor ''f'' 16 254 True 16) ! 6 = (45, 225, 150)"
proof -
  let ?cfg = "ECBImageProcessor ''f'' 16 254 True 16"
  have mc: "max_colors ?cfg = 254" by (simp add: ECBImageProcessor_def)
  have h: "2 \<le> max_colors ?cfg" by (simp add: mc)
  from palette_layout [OF h]
  have l: "int (length (generate_color_palette ?cfg)) = max_colors ?cfg"
    and b: "generate_color_palette ?cfg ! nat (max_colors ?cfg - 1) = (0, 0, 0)"
    and f: "\<forall>i. 1 \<le> i \<and> i \<le> max_colors ?cfg - 2 \<longrightarrow>
          generate_color_palette ?cfg ! nat i = (i * 50 mod 255, i * 80 mod 255, i * 110 mod 255)"
    by blast+
  have "generate_color_palette ?cfg ! nat 6 = (6 * 50 mod 255, 6 * 80 mod 255, 6 * 110 mod 255)"
    using f [rule_format, of 6] by (simp add: mc)
  then have "generate_color_palette ?cfg ! 6 = (45, 225, 150)" by simp
  moreover have "generate_color_palette ?cfg ! 253 = (0, 0, 0)" using b by (simp add: mc)
  ultimately show ?thesis using l by (simp add: mc)
qed

text \<open>With the default 254 colours, entry 6 is \<open>(45, 225, 150)\<close>, which is not the value
  \<open>(44, 224, 148)\<close> that a modulus of 256 gives.\<close>

theorem palette_mod_256_counterexample:
  "generate_color_palette (ECBImageProcessor ''f'' 16 254 True 16) ! 6
     \<noteq> (6 * 50 mod 256, 6 * 80 mod 256, 6 * 110 mod 256)"
proof -
  let ?cfg = "ECBImageProcessor ''f'' 16 254 True 16"
  have mc: "max_colors ?cfg = 254" by (simp add: ECBImageProcessor_def)
  have "generate_color_palette ?cfg ! nat 6 = palette_color 6"
    by (rule generate_color_palette_nth) (simp_all add: mc)
  then have "generate_color_palette ?cfg ! 6 = (45, 225, 150)"
    by (simp add: palette_color_def)
  then show ?thesis by simp
qed

subsection \<open>Ranking\<close>

text \<open>
  C6. The ranking lists every distinct block once, with its number of occurrences,
  sorted by count in descending order; blocks of equal count appear in the order in
  which they are first seen in the block sequence. The ranking is a function of the
  block sequence, so it is the same on every run for a fixed input ordering.
\<close>

theorem ranking_sorted_first_seen:
  "sorted_wrt (\<lambda>p q. snd q \<le> snd p) (ranking img_blocks)
   \<and> distinct (map fst (ranking img_blocks))
   \<and> fst ` set (ranking img_blocks) = set img_blocks
   \<and> (\<forall>p \<in> set (ranking img_blocks). snd p = int (count_list img_blocks (fst p)))
   \<and> (\<forall>i j. i < j \<and> j < length (ranking img_blocks) \<longrightarrow>
         snd (ranking img_blocks ! j) \<le> snd (ranking img_blocks ! i))
   \<and> (\<forall>i j. i < j \<and> j < length (ranking img_blocks)
           \<and> snd (ranking img_blocks ! i) = snd (ranking img_blocks ! j) \<longrightarrow>
         first_index img_blocks (fst (ranking img_blocks ! i))
           < first_index img_blocks (fst (ranking img_blocks ! j)))"
proof -
  have keys: "fst ` set (ranking img_blocks) = set img_blocks"
    using keys_Counter [of img_blocks] by (simp add: set_ranking)
  have counts: "\<forall>p \<in> set (ranking img_blocks). snd p = int (count_list img_blocks (fst p))"
    using Counter_counts [of _ _ img_blocks] by (auto simp: set_ranking)
  have desc: "\<forall>i j. i < j \<and> j < length (ranking img_blocks) \<longrightarrow>
         snd (ranking img_blocks ! j) \<le> snd (ranking img_blocks ! i)"
    using ranking_descending [of img_blocks] by (simp add: sorted_wrt_iff_nth_less)
  have ties: "\<forall>i j. i < j \<and> j < length (ranking img_blocks)
           \<and> snd (ranking img_blocks ! i) = snd (ranking img_blocks ! j) \<longrightarrow>
         first_index img_blocks (fst (ranking img_blocks ! i))
           < first_index img_blocks (fst (ranking img_blocks ! j))"
    using ranking_ties_first_seen [of _ _ img_blocks]
    by (simp add: ranking_def count_block_frequencies_def)
  show ?thesis
    using ranking_descending distinct_keys_ranking keys counts desc ties by blast
qed

theorem ranking_sorted_first_seen_witness:
  "snd (ranking [[1], [2], [1], [3 :: byte]] ! 1) \<le> snd (ranking [[1], [2], [1], [3 :: byte]] ! 0)
   \<and> first_index [[1], [2], [1], [3 :: byte]] (fst (ranking [[1], [2], [1], [3 :: byte]] ! 1))
       < first_index [[1], [2], [1], [3 :: byte]] (fst (ranking [[1], [2], [1], [3 :: byte]] ! 2))
   \<and> ranking [[1], [2], [1], [3 :: byte]] = [([1], 2), ([2], 1), ([3], 1)]"
proof -
  let ?bl = "[[1], [2], [1], [3 :: byte]]"
  have r: "ranking ?bl = [([1], 2), ([2], 1), ([3], 1)]" by code_simp
  from ranking_sorted_first_seen [of ?bl]
  have desc: "\<forall>i j. i < j \<and> j < length (ranking ?bl) \<longrightarrow>
         snd (ranking ?bl ! j) \<le> snd (ranking ?bl ! i)"
    and ties: "\<forall>i j. i < j \<and> j < length (ranking ?bl)
           \<and> snd (ranking ?bl ! i) = snd (ranking ?bl ! j) \<longrightarrow>
         first_index ?bl (fst (ranking ?bl ! i)) < first_index ?bl (fst (ranking ?bl ! j))"
    by blast+
  have h1: "(0::nat) < 1 \<and> 1 < length (ranking ?bl)" by (simp add: r)
  have h2: "(1::nat) < 2 \<and> 2 < length (ranking ?bl)
      \<and> snd (ranking ?bl ! 1) = snd (ranking ?bl ! 2)" by (simp add: r)
  from desc h1 have a: "snd (ranking ?bl ! 1) \<le> snd (ranking ?bl ! 0)" by blast
  from ties h2 have b: "first_index ?bl (fst (ranking ?bl ! 1))
      < first_index ?bl (fst (ranking ?bl ! 2))" by blast
  show ?thesis using a b r by blast
qed

subsection \<open>Colours by rank\<close>

text \<open>
  C1 (as amended). For \<open>max_colors \<ge> 2\<close>, the distinct block of rank 0 receives white,
  the block of rank \<open>i\<close> with \<open>1 \<le> i \<le> max_colors - 2\<close> receives the formula colour of
  index \<open>i\<close>, and every block ranked at or beyond \<open>max_colors - 1\<close> receives black. A
  formula colour is never white, it is black exactly when 51 divides \<open>i\<close>, and two ranks
  \<open>i < j\<close> in that range receive the same colour exactly when 51 divides \<open>j - i\<close>. Hence
  the blocks at ranks 1 to 50 (within \<open>max_colors - 2\<close>) receive pairwise different
  colours that are neither white nor black.
\<close>

theorem rank_colors:
  assumes "2 \<le> max_colors cfg"
  shows "(\<forall>i < length (ranking bl). rank_color cfg bl i =
            Some (if i = 0 then (255, 255, 255)
                  else if int i \<le> max_colors cfg - 2 then palette_color (int i)
                  else (0, 0, 0)))
   \<and> (\<forall>i. 1 \<le> i \<and> i < length (ranking bl) \<and> int i \<le> max_colors cfg - 2 \<longrightarrow>
          rank_color cfg bl i \<noteq> Some (255, 255, 255)
          \<and> (rank_color cfg bl i = Some (0, 0, 0) \<longleftrightarrow> 51 dvd i))
   \<and> (\<forall>i j. 1 \<le> i \<and> i < j \<and> j < length (ranking bl) \<and> int j \<le> max_colors cfg - 2 \<longrightarrow>
          (rank_color cfg bl i = rank_color cfg bl j \<longleftrightarrow> 51 dvd (j - i)))
   \<and> (\<forall>i j. 1 \<le> i \<and> i < j \<and> j \<le> 50 \<and> j < length (ranking bl)
            \<and> int j \<le> max_colors cfg - 2 \<longrightarrow>
          rank_color cfg bl i \<noteq> rank_color cfg bl j
          \<and> rank_color cfg bl i \<noteq> Some (255, 255, 255) \<and> rank_color cfg bl i \<noteq> Some (0, 0, 0)
          \<and> rank_color cfg bl j \<noteq> Some (255, 255, 255) \<and> rank_color cfg bl j \<noteq> Some (0, 0, 0))
   \<and> (\<forall>i < length (ranking bl). max_colors cfg - 1 \<le> int i \<longrightarrow>
          rank_color cfg bl i = Some (0, 0, 0))"
proof -
  note rc = rank_color_cases [OF assms]
  have formula: "rank_color cfg bl i = Some (palette_color (int i))"
    if "1 \<le> i" "i < length (ranking bl)" "int i \<le> max_colors cfg - 2" for i
    using rc [OF that(2)] that by simp
  have sentinel: "rank_color cfg bl i \<noteq> Some (255, 255, 255)
          \<and> (rank_color cfg bl i = Some (0, 0, 0) \<longleftrightarrow> 51 dvd i)"
    if "1 \<le> i" "i < length (ranking bl)" "int i \<le> max_colors cfg - 2" for i
  proof -
    have "(51::int) dvd int i \<longleftrightarrow> (51::nat) dvd i"
      using int_dvd_int_iff [of 51 i] by simp
    then show ?thesis
      using formula [OF that] by (simp add: palette_color_not_white palette_color_black_iff)
  qed
  have share: "rank_color cfg bl i = rank_color cfg bl j \<longleftrightarrow> 51 dvd (j - i)"
    if "1 \<le> i" "i < j" "j < length (ranking bl)" "int j \<le> max_colors cfg - 2" for i j
  proof -
    have "rank_color cfg bl i = Some (palette_color (int i))"
      using that by (intro formula) linarith+
    moreover have "rank_color cfg bl j = Some (palette_color (int j))"
      using that by (intro formula) linarith+
    ultimately show ?thesis
      using dvd_nat_diff [OF that(2)] by (simp add: palette_color_eq_iff)
  qed
  have small: "rank_color cfg bl i \<noteq> rank_color cfg bl j
          \<and> rank_color cfg bl i \<noteq> Some (255, 255, 255) \<and> rank_color cfg bl i \<noteq> Some (0, 0, 0)
          \<and> rank_color cfg bl j \<noteq> Some (255, 255, 255) \<and> rank_color cfg bl j \<noteq> Some (0, 0, 0)"
    if "1 \<le> i" "i < j" "j \<le> 50" "j < length (ranking bl)" "int j \<le> max_colors cfg - 2" for i j
  proof -
    have i: "i < length (ranking bl)" "int i \<le> max_colors cfg - 2" using that by linarith+
    have "\<not> 51 dvd (j - i)" "\<not> 51 dvd i" "\<not> 51 dvd j"
      using that by (intro not_51_dvd_small; linarith)+
    then show ?thesis
      using share [OF that(1,2,4,5)] sentinel [OF that(1) i] sentinel [of j] that by simp
  qed
  have overflow: "rank_color cfg bl i = Some (0, 0, 0)"
    if "i < length (ranking bl)" "max_colors cfg - 1 \<le> int i" for i
    using rc [OF that(1)] that assms by simp
  show ?thesis
    using rc sentinel share small overflow by blast
qed

theorem rank_colors_witness:
  "rank_color (ECBImageProcessor ''f'' 1 4 True 1) [[0], [1], [0], [2], [3 :: byte]] 0
     = Some (255, 255, 255)
   \<and> rank_color (ECBImageProcessor ''f'' 1 4 True 1) [[0], [1], [0], [2], [3 :: byte]] 1
     = Some (50, 80, 110)
   \<and> rank_color (ECBImageProcessor ''f'' 1 4 True 1) [[0], [1], [0], [2], [3 :: byte]] 1
     \<noteq> rank_color (ECBImageProcessor ''f'' 1 4 True 1) [[0], [1], [0], [2], [3 :: byte]] 2
   \<and> rank_color (ECBImageProcessor ''f'' 1 4 True 1) [[0], [1], [0], [2], [3 :: byte]] 3
     = Some (0, 0, 0)"
proof -
  let ?cfg = "ECBImageProcessor ''f'' 1 4 True 1"
  let ?bl = "[[0], [1], [0], [2], [3 :: byte]]"
  have mc: "max_colors ?cfg = 4" by (simp add: ECBImageProcessor_def)
  have h: "2 \<le> max_colors ?cfg" by (simp add: mc)
  have len: "length (ranking ?bl) = 4" by code_simp
  note t = rank_colors [OF h, of ?bl]
  from t have all: "\<forall>i < length (ranking ?bl). rank_color ?cfg ?bl i =
            Some (if i = 0 then (255, 255, 255)
                  else if int i \<le> max_colors ?cfg - 2 then palette_color (int i)
                  else (0, 0, 0))" by blast
  from t have small: "\<forall>i j. 1 \<le> i \<and> i < j \<and> j \<le> 50 \<and> j < length (ranking ?bl)
            \<and> int j \<le> max_colors ?cfg - 2 \<longrightarrow>
          rank_color ?cfg ?bl i \<noteq> rank_color ?cfg ?bl j
          \<and> rank_color ?cfg ?bl i \<noteq> Some (255, 255, 255) \<and> rank_color ?cfg ?bl i \<noteq> Some (0, 0, 0)
          \<and> rank_color ?cfg ?bl j \<noteq> Some (255, 255, 255) \<and> rank_color ?cfg ?bl j \<noteq> Some (0, 0, 0)"
    by blast
  from t have over: "\<forall>i < length (ranking ?bl). max_colors ?cfg - 1 \<le> int i \<longrightarrow>
          rank_color ?cfg ?bl i = Some (0, 0, 0)" by blast
  have a: "rank_color ?cfg ?bl 0 = Some (255, 255, 255)"
    using all [rule_format, of 0] by (simp add: len)
  have b: "rank_color ?cfg ?bl 1 = Some (50, 80, 110)"
    using all [rule_format, of 1] by (simp add: len mc palette_color_def)
  have "(1::nat) \<le> 1 \<and> (1::nat) < 2 \<and> (2::nat) \<le> 50 \<and> 2 < length (ranking ?bl)
      \<and> int 2 \<le> max_colors ?cfg - 2" by (simp add: len mc)
  with small have c: "rank_color ?cfg ?bl 1 \<noteq> rank_color ?cfg ?bl 2" by blast
  have "3 < length (ranking ?bl) \<and> max_colors ?cfg - 1 \<le> int 3" by (simp add: len mc)
  with over have d: "rank_color ?cfg ?bl 3 = Some (0, 0, 0)" by blast
  show ?thesis using a b c d by blast
qed

text \<open>C1 as first stated fails at the default 254 colours on 53 distinct blocks:
  the blocks of ranks 1 and 52 are different blocks among the top 252, and both receive
  \<open>(50, 80, 110)\<close>; the block of rank 0 receives the white sentinel.\<close>

theorem rank_colors_shared_counterexample:
  "length (ranking distinct_bytes_53) = 53
   \<and> fst (ranking distinct_bytes_53 ! 1) \<noteq> fst (ranking distinct_bytes_53 ! 52)
   \<and> rank_color (ECBImageProcessor ''f'' 1 254 True 1) distinct_bytes_53 1 = Some (50, 80, 110)
   \<and> rank_color (ECBImageProcessor ''f'' 1 254 True 1) distinct_bytes_53 52 = Some (50, 80, 110)
   \<and> rank_color (ECBImageProcessor ''f'' 1 254 True 1) distinct_bytes_53 0 = Some (255, 255, 255)"
proof -
  let ?cfg = "ECBImageProcessor ''f'' 1 254 True 1"
  have mc: "max_colors ?cfg = 254" by (simp add: ECBImageProcessor_def)
  have h: "2 \<le> max_colors ?cfg" by (simp add: mc)
  have len: "length (ranking distinct_bytes_53) = 53" by code_simp
  have ne: "fst (ranking distinct_bytes_53 ! 1) \<noteq> fst (ranking distinct_bytes_53 ! 52)"
    using distinct_keys_ranking [of distinct_bytes_53] len
    by (simp add: distinct_conv_nth)
  have a: "rank_color ?cfg distinct_bytes_53 1 = Some (50, 80, 110)"
    using rank_color_cases [OF h, of 1 distinct_bytes_53] by (simp add: len mc palette_color_def)
  have b: "rank_color ?cfg distinct_bytes_53 52 = Some (50, 80, 110)"
    using rank_color_cases [OF h, of 52 distinct_bytes_53] by (simp add: len mc palette_color_def)
  have c: "rank_color ?cfg distinct_bytes_53 0 = Some (255, 255, 255)"
    using rank_color_cases [OF h, of 0 distinct_bytes_53] by (simp add: len)
  show ?thesis using len ne a b c by blast
qed

subsection \<open>Expansion into pixels\<close>

text \<open>
  C7. When the input has been read and chunked (and \<open>pixels_per_block\<close> is not zero, so
  that the expansion does not raise), the pixel sequence consists of one run per block,
  in the blocks' original chunk order and never in rank order: the pixels at the
  positions of block \<open>j\<close> all have the colour that the colour map gives to the \<open>j\<close>-th
  input block.
\<close>

theorem pixels_in_chunk_order:
  assumes "read_image_bytes cfg fs = Inr img_data"
    and "break_into_blocks cfg img_data = Inr img_blocks"
    and "pixels_per_block cfg \<noteq> 0"
  shows "\<exists>pixel_colors.
      pixel_stage cfg fs = Inr pixel_colors
    \<and> length pixel_colors = length img_blocks * nat (block_size cfg div pixels_per_block cfg)
    \<and> (\<forall>j < length img_blocks. \<forall>t < nat (block_size cfg div pixels_per_block cfg).
          pixel_colors ! (j * nat (block_size cfg div pixels_per_block cfg) + t) =
            dict_get (assign_colors_to_blocks (count_block_frequencies img_blocks)
                        (generate_color_palette cfg))
              (img_blocks ! j) (0, 0, 0))"
proof -
  let ?n = "nat (block_size cfg div pixels_per_block cfg)"
  let ?m = "assign_colors_to_blocks (count_block_frequencies img_blocks) (generate_color_palette cfg)"
  let ?px = "concat (map (\<lambda>b. replicate ?n (dict_get ?m b (0, 0, 0))) img_blocks)"
  have "pixel_stage cfg fs = Inr ?px"
    using pixel_stage_eq [OF assms(1,2)] map_blocks_to_colors_eq [OF assms(3)] by simp
  moreover have "length ?px = length img_blocks * ?n"
    by (rule length_concat_replicate)
  moreover have "\<forall>j < length img_blocks. \<forall>t < ?n.
      ?px ! (j * ?n + t) = dict_get ?m (img_blocks ! j) (0, 0, 0)"
    using nth_concat_replicate [of _ img_blocks _ ?n "\<lambda>b. dict_get ?m b (0, 0, 0)"] by blast
  ultimately show ?thesis by blast
qed

theorem pixels_in_chunk_order_witness:
  "\<exists>pixel_colors.
      pixel_stage (ECBImageProcessor ''f'' 2 254 True 1) [''f'' \<mapsto> [1, 2, 3, 4, 1, 2]]
        = Inr pixel_colors
    \<and> length pixel_colors = 6
    \<and> pixel_colors ! 2 = (50, 80, 110) \<and> pixel_colors ! 3 = (50, 80, 110)"
proof -
  let ?cfg = "ECBImageProcessor ''f'' 2 254 True 1"
  let ?fs = "[''f'' \<mapsto> [1, 2, 3, 4, 1, 2 :: byte]]"
  let ?bl = "[[1, 2], [3, 4], [1, 2 :: byte]]"
  have h1: "read_image_bytes ?cfg ?fs = Inr [1, 2, 3, 4, 1, 2]" by code_simp
  have h2: "break_into_blocks ?cfg [1, 2, 3, 4, 1, 2] = Inr ?bl" by code_simp
  have h3: "pixels_per_block ?cfg \<noteq> 0" by (simp add: ECBImageProcessor_def)
  have q: "nat (block_size ?cfg div pixels_per_block ?cfg) = 2"
    by (simp add: ECBImageProcessor_def)
  have col: "dict_get (assign_colors_to_blocks (count_block_frequencies ?bl)
                        (generate_color_palette ?cfg)) [3, 4] (0, 0, 0) = (50, 80, 110)"
    by code_simp
  from pixels_in_chunk_order [OF h1 h2 h3] obtain pcs where
    st: "pixel_stage ?cfg ?fs = Inr pcs"
    and len: "length pcs = length ?bl * nat (block_size ?cfg div pixels_per_block ?cfg)"
    and nth: "\<forall>j < length ?bl. \<forall>t < nat (block_size ?cfg div pixels_per_block ?cfg).
          pcs ! (j * nat (block_size ?cfg div pixels_per_block ?cfg) + t) =
            dict_get (assign_colors_to_blocks (count_block_frequencies ?bl)
                        (generate_color_palette ?cfg))
              (?bl ! j) (0, 0, 0)"
    by blast
  have l6: "length pcs = 6" using len by (simp add: q)
  have "pcs ! (1 * 2 + 0) = (50, 80, 110)"
    using nth [rule_format, of 1 0] by (simp add: q col)
  then have p2: "pcs ! 2 = (50, 80, 110)" by simp
  have "pcs ! (1 * 2 + 1) = (50, 80, 110)"
    using nth [rule_format, of 1 1] by (simp add: q col)
  then have p3: "pcs ! 3 = (50, 80, 110)" by simp
  show ?thesis using st l6 p2 p3 by blast
qed




subsection \<open>Rendering\<close>

text \<open>
  C9. For a non-empty pixel sequence of \<open>n\<close> pixels, \<open>create_image\<close> succeeds; the raster
  has width \<open>floor (sqrt n)\<close> and height \<open>ceiling (n / width)\<close>; the pixel of linear
  index \<open>k\<close> is placed at \<open>(k mod width, k div width)\<close> when \<open>flip\<close> is false and at
  \<open>(k mod width, height - (k div width) - 1)\<close> when \<open>flip\<close> is true. (The square root of
  the source is taken in double precision; see \<open>isqrt\<close>.)
\<close>

theorem raster_layout:
  assumes "pixel_colors \<noteq> []"
  shows "\<exists>img.
      snd (create_image cfg pixel_colors) = Inr img
    \<and> img_width img = \<lfloor>sqrt (real (length pixel_colors))\<rfloor>
    \<and> img_height img = \<lceil>real (length pixel_colors) / real_of_int (img_width img)\<rceil>
    \<and> (\<forall>k < length pixel_colors.
          img_pixels img
            (if flip cfg
             then (int k mod img_width img, img_height img - int k div img_width img - 1)
             else (int k mod img_width img, int k div img_width img))
          = Some (pixel_colors ! k))"
proof -
  from render_layout [OF assms, of cfg] obtain img where
    r: "render cfg pixel_colors = Inr img"
    and wd: "img_width img = int (isqrt (length pixel_colors))"
    and w: "0 < img_width img"
    and h: "img_height img = (if int (length pixel_colors) mod img_width img \<noteq> 0
                           then int (length pixel_colors) div img_width img + 1
                           else int (length pixel_colors) div img_width img)"
    and c: "int (length pixel_colors) \<le> img_width img * img_height img"
    and p: "img_pixels img =
        draw_loop cfg (img_width img) (img_height img) 0 pixel_colors Map.empty"
    by blast
  have 1: "snd (create_image cfg pixel_colors) = Inr img"
    using r by (simp add: create_image_def)
  have 2: "img_width img = \<lfloor>sqrt (real (length pixel_colors))\<rfloor>"
    using wd by (simp only: isqrt_floor_sqrt)
  have "\<lceil>real_of_int (int (length pixel_colors)) / real_of_int (img_width img)\<rceil> = img_height img"
    using ceiling_div [OF w, of "int (length pixel_colors)"] h by simp
  then have 3: "img_height img = \<lceil>real (length pixel_colors) / real_of_int (img_width img)\<rceil>"
    by simp
  have 4: "img_pixels img
            (if flip cfg
             then (int k mod img_width img, img_height img - int k div img_width img - 1)
             else (int k mod img_width img, int k div img_width img))
          = Some (pixel_colors ! k)" if "k < length pixel_colors" for k
  proof -
    have "draw_loop cfg (img_width img) (img_height img) 0 pixel_colors Map.empty
        (pixel_position cfg (img_width img) (img_height img) (0 + k)) = Some (pixel_colors ! k)"
      using w c that by (intro draw_loop_nth) simp_all
    then show ?thesis by (cases "flip cfg") (simp_all add: p pixel_position_def Let_def)
  qed
  show ?thesis using 1 2 3 4 by blast
qed

theorem raster_layout_witness:
  "\<exists>img.
      snd (create_image (ECBImageProcessor ''f'' 16 254 True 16)
             [(1, 1, 1), (2, 2, 2), (3, 3, 3), (4, 4, 4), (5, 5, 5)]) = Inr img
    \<and> img_width img = 2 \<and> img_height img = 3
    \<and> img_pixels img (0, 2) = Some (1, 1, 1) \<and> img_pixels img (1, 1) = Some (4, 4, 4)
    \<and> img_pixels img (0, 0) = Some (5, 5, 5)"
proof -
  let ?cfg = "ECBImageProcessor ''f'' 16 254 True 16"
  let ?pcs = "[(1, 1, 1), (2, 2, 2), (3, 3, 3), (4, 4, 4), (5, 5, 5)] :: color list"
  have h: "?pcs \<noteq> []" by simp
  have fl: "flip ?cfg" by (simp add: ECBImageProcessor_def)
  have sq: "isqrt 5 = 2" by code_simp
  from raster_layout [OF h, of ?cfg] obtain img where
    c: "snd (create_image ?cfg ?pcs) = Inr img"
    and w: "img_width img = \<lfloor>sqrt (real (length ?pcs))\<rfloor>"
    and ht: "img_height img = \<lceil>real (length ?pcs) / real_of_int (img_width img)\<rceil>"
    and px: "\<forall>k < length ?pcs.
          img_pixels img
            (if flip ?cfg
             then (int k mod img_width img, img_height img - int k div img_width img - 1)
             else (int k mod img_width img, int k div img_width img))
          = Some (?pcs ! k)"
    by blast
  have "\<lfloor>sqrt (real (length ?pcs))\<rfloor> = int (isqrt (length ?pcs))"
    by (simp only: isqrt_floor_sqrt)
  then have w2: "img_width img = 2" using w sq by simp
  have h3: "img_height img = 3" using ht by (simp add: w2)
  have p0: "img_pixels img (0, 2) = Some (1, 1, 1)"
    using px [rule_format, of 0] by (simp add: fl w2 h3)
  have p3: "img_pixels img (1, 1) = Some (4, 4, 4)"
    using px [rule_format, of 3] by (simp add: fl w2 h3)
  have p4: "img_pixels img (0, 0) = Some (5, 5, 5)"
    using px [rule_format, of 4] by (simp add: fl w2 h3)
  show ?thesis using c w2 h3 p0 p3 p4 by blast
qed

text \<open>
  C10. When the pixel sequence of a run is empty, the rendering stage computes the width
  0 and the division by it raises \<open>ZeroDivisionError\<close>: the run has read the input
  file and ends without saving an image. The pixel sequence is empty when the truncated
  input buffer is empty, and when \<open>pixels_per_block\<close> exceeds a (non-zero) \<open>block_size\<close>.
\<close>

theorem empty_pixel_sequence_aborts:
  "(pixel_stage cfg fs = Inr [] \<longrightarrow>
      isqrt (length ([] :: color list)) = 0
      \<and> render cfg [] = Inl ZeroDivisionError
      \<and> process_image cfg fs = ([FileRead (image_path cfg)], Inl ZeroDivisionError))
   \<and> (read_image_bytes cfg fs = Inr [] \<longrightarrow> pixel_stage cfg fs = Inr [])
   \<and> (fs (image_path cfg) = Some data \<and> block_size cfg \<noteq> 0
        \<and> block_size cfg < pixels_per_block cfg \<longrightarrow> pixel_stage cfg fs = Inr [])"
proof -
  have a: "isqrt (length ([] :: color list)) = 0 \<and> render cfg [] = Inl ZeroDivisionError
      \<and> process_image cfg fs = ([FileRead (image_path cfg)], Inl ZeroDivisionError)"
    if "pixel_stage cfg fs = Inr []"
    using that by (simp add: render_empty process_image_empty)
  have b: "pixel_stage cfg fs = Inr []" if rd: "read_image_bytes cfg fs = Inr []"
  proof -
    have nz: "block_size cfg \<noteq> 0"
      using rd by (auto simp: read_image_bytes_def truncate_bytes_zero split: option.splits)
    have "break_into_blocks cfg [] = Inr []"
    proof (cases "block_size cfg < 0")
      case True
      then show ?thesis by (rule break_into_blocks_neg)
    next
      case False
      then have "0 < block_size cfg" using nz by linarith
      then show ?thesis by (simp add: break_into_blocks_def py_range_def range_up_empty)
    qed
    then show ?thesis using pixel_stage_eq [OF rd] by (simp add: map_blocks_to_colors_Nil)
  qed
  have c: "pixel_stage cfg fs = Inr []"
    if f: "fs (image_path cfg) = Some data" and nz: "block_size cfg \<noteq> 0"
      and lt: "block_size cfg < pixels_per_block cfg"
  proof (cases "block_size cfg < 0")
    case True
    have "read_image_bytes cfg fs = Inr data"
      using f by (simp add: read_image_bytes_def truncate_bytes_neg [OF True])
    then show ?thesis
      using pixel_stage_eq [of cfg fs data "[]"] break_into_blocks_neg [OF True]
      by (simp add: map_blocks_to_colors_Nil)
  next
    case False
    then have pos: "0 < block_size cfg" using nz by linarith
    define b where "b = nat (block_size cfg)"
    have b: "block_size cfg = int b" "0 < b" using pos by (simp_all add: b_def)
    note ch = chunking_pos [of cfg b fs data, OF b f]
    have "block_size cfg div pixels_per_block cfg = 0"
      using pos lt by (simp add: div_pos_pos_trivial)
    moreover have "pixels_per_block cfg \<noteq> 0" using pos lt by linarith
    ultimately show ?thesis
      using pixel_stage_eq [OF ch] by (simp add: map_blocks_to_colors_eq)
  qed
  show ?thesis using a b c by blast
qed

theorem empty_pixel_sequence_aborts_witness:
  "process_image (ECBImageProcessor ''f'' 2 254 True 16) [''f'' \<mapsto> [1, 2, 3, 4, 1, 2]]
     = ([FileRead ''f''], Inl ZeroDivisionError)
   \<and> process_image (ECBImageProcessor ''f'' 16 254 True 16) [''f'' \<mapsto> [1, 2, 3, 4, 1, 2]]
     = ([FileRead ''f''], Inl ZeroDivisionError)"
proof -
  let ?cfgA = "ECBImageProcessor ''f'' 2 254 True 16"
  let ?cfgB = "ECBImageProcessor ''f'' 16 254 True 16"
  let ?data = "[1, 2, 3, 4, 1, 2 :: byte]"
  let ?fs = "[''f'' \<mapsto> ?data]"
  have hA: "?fs (image_path ?cfgA) = Some ?data \<and> block_size ?cfgA \<noteq> 0
      \<and> block_size ?cfgA < pixels_per_block ?cfgA"
    by (simp add: ECBImageProcessor_def)
  note tA = empty_pixel_sequence_aborts [of ?cfgA ?fs ?data]
  from tA hA have sA: "pixel_stage ?cfgA ?fs = Inr []" by blast
  with tA have "process_image ?cfgA ?fs = ([FileRead (image_path ?cfgA)], Inl ZeroDivisionError)"
    by blast
  then have a: "process_image ?cfgA ?fs = ([FileRead ''f''], Inl ZeroDivisionError)"
    by (simp add: ECBImageProcessor_def)
  have hB: "read_image_bytes ?cfgB ?fs = Inr []" by code_simp
  note tB = empty_pixel_sequence_aborts [of ?cfgB ?fs ?data]
  from tB hB have sB: "pixel_stage ?cfgB ?fs = Inr []" by blast
  with tB have "process_image ?cfgB ?fs = ([FileRead (image_path ?cfgB)], Inl ZeroDivisionError)"
    by blast
  then have b: "process_image ?cfgB ?fs = ([FileRead ''f''], Inl ZeroDivisionError)"
    by (simp add: ECBImageProcessor_def)
  show ?thesis using a b by blast
qed

subsection \<open>The scenario of 32 zero bytes\<close>

text \<open>
  C5 (as amended). For an input of 32 zero bytes and \<open>block_size = 16\<close> there are two
  identical blocks, both mapped to palette entry 0, which is pure white. The pixel
  sequence is 32 white pixels when \<open>pixels_per_block = 1\<close> and 2 white pixels, one per
  block, when \<open>pixels_per_block = 16\<close>: a block contributes
  \<open>block_size // pixels_per_block\<close> pixels.
\<close>

theorem zero_bytes_scenario:
  "read_image_bytes (ECBImageProcessor path 16 mc fl 1) [path \<mapsto> replicate 32 0]
     = Inr (replicate 32 0)
   \<and> break_into_blocks (ECBImageProcessor path 16 mc fl 1) (replicate 32 0)
     = Inr [replicate 16 0, replicate 16 0]
   \<and> assign_colors_to_blocks (count_block_frequencies [replicate 16 0, replicate 16 (0 :: byte)])
       (generate_color_palette (ECBImageProcessor path 16 mc fl 1)) (replicate 16 0)
     = Some (generate_color_palette (ECBImageProcessor path 16 mc fl 1) ! 0)
   \<and> generate_color_palette (ECBImageProcessor path 16 mc fl 1) ! 0 = (255, 255, 255)
   \<and> pixel_stage (ECBImageProcessor path 16 mc fl 1) [path \<mapsto> replicate 32 0]
     = Inr (replicate 32 (255, 255, 255))
   \<and> pixel_stage (ECBImageProcessor path 16 mc fl 16) [path \<mapsto> replicate 32 0]
     = Inr [(255, 255, 255), (255, 255, 255)]"
proof -
  let ?c1 = "ECBImageProcessor path 16 mc fl 1"
  let ?c16 = "ECBImageProcessor path 16 mc fl 16"
  let ?fs = "[path \<mapsto> replicate 32 (0 :: byte)]"
  have b1: "block_size ?c1 = 16" and f1: "?fs (image_path ?c1) = Some (replicate 32 0)"
    and p1: "pixels_per_block ?c1 = 1"
    by (simp_all add: ECBImageProcessor_def)
  have b16: "block_size ?c16 = 16" and f16: "?fs (image_path ?c16) = Some (replicate 32 0)"
    and p16: "pixels_per_block ?c16 = 16"
    by (simp_all add: ECBImageProcessor_def)
  note ch = zero_blocks_chunks [of ?c1 ?fs, OF b1 f1]
  have m: "assign_colors_to_blocks (count_block_frequencies [replicate 16 0, replicate 16 (0 :: byte)])
       (generate_color_palette ?c1) (replicate 16 0) = Some (generate_color_palette ?c1 ! 0)"
    by (simp add: color_map_two_equal_blocks)
  have "pixel_stage ?c1 ?fs = Inr (replicate 16 (255, 255, 255) @ replicate 16 (255, 255, 255))"
    using zero_blocks_pixels [of ?c1 ?fs, OF b1 f1] by (simp add: p1)
  then have s1: "pixel_stage ?c1 ?fs = Inr (replicate 32 (255, 255, 255))"
    by (simp add: replicate_add [symmetric])
  have "pixel_stage ?c16 ?fs = Inr (replicate 1 (255, 255, 255) @ replicate 1 (255, 255, 255))"
    using zero_blocks_pixels [of ?c16 ?fs, OF b16 f16] by (simp add: p16)
  then have s16: "pixel_stage ?c16 ?fs = Inr [(255, 255, 255), (255, 255, 255)]"
    by simp
  show ?thesis using ch m generate_color_palette_first [of ?c1] s1 s16 by blast
qed

text \<open>With \<open>pixels_per_block = 16\<close> the pixel sequence is not two runs of 16 white
  pixels.\<close>

theorem zero_bytes_two_runs_counterexample:
  "pixel_stage (ECBImageProcessor ''f'' 16 254 True 16) [''f'' \<mapsto> replicate 32 0]
     \<noteq> Inr (replicate 16 (255, 255, 255) @ replicate 16 (255, 255, 255))"
proof -
  let ?c16 = "ECBImageProcessor ''f'' 16 254 True 16"
  let ?fs = "[''f'' \<mapsto> replicate 32 (0 :: byte)]"
  have b16: "block_size ?c16 = 16" and f16: "?fs (image_path ?c16) = Some (replicate 32 0)"
    and p16: "pixels_per_block ?c16 = 16"
    by (simp_all add: ECBImageProcessor_def)
  have "pixel_stage ?c16 ?fs = Inr (replicate 1 (255, 255, 255) @ replicate 1 (255, 255, 255))"
    using zero_blocks_pixels [of ?c16 ?fs, OF b16 f16] by (simp add: p16)
  then have two: "pixel_stage ?c16 ?fs = Inr [(255, 255, 255), (255, 255, 255)]" by simp
  show ?thesis
  proof
    assume "pixel_stage ?c16 ?fs
        = Inr (replicate 16 (255, 255, 255) @ replicate 16 (255, 255, 255))"
    then have "[(255, 255, 255), (255, 255, 255)]
        = replicate 16 (255, 255, 255) @ replicate 16 ((255, 255, 255) :: color)"
      using two by simp
    then have "length [(255, 255, 255), (255, 255, 255) :: color]
        = length (replicate 16 (255, 255, 255) @ replicate 16 ((255, 255, 255) :: color))"
      by (rule arg_cong)
    then show False by simp
  qed
qed

subsection \<open>Invalid parameters\<close>




end
